theory Spec2Isabelle
  imports Complex_Main
begin

section \<open>Types (src/types/index.ts)\<close>

text \<open>
  JavaScript numbers are modelled exactly: slot indices, which the code only ever
  produces by counting and by adding or subtracting one, are \<open>int\<close>; pixel quantities
  (heights, offsets, scroll positions, the auto-scroll speed) are \<open>real\<close>. An item is
  known to the engine only through \<open>String(item.id)\<close>, a \<open>string\<close>.

  \<open>TPositions\<close> is a JavaScript object used as a dictionary. It is modelled as an
  association list with pairwise distinct keys, in the order \<open>Object.keys\<close> enumerates
  them: the code iterates over the keys and sorts the entries with a stable sort, so the
  order is part of the data. \<open>THeights\<close> is only ever read by key, so it is a map;
  a key that was never written reads as \<open>undefined\<close>, modelled by \<open>None\<close>.
\<close>

type_synonym TPositions = "(string \<times> int) list"

type_synonym THeights = "string \<rightharpoonup> real"

datatype TAutoScrollDirection = Up | Down | Stop

subsection \<open>Reading and writing a JavaScript object\<close>

text \<open>\<open>obj[k]\<close>: the value stored under \<open>k\<close>, \<open>None\<close> for \<open>undefined\<close>.\<close>

definition obj_get :: "(string \<times> 'v) list \<Rightarrow> string \<Rightarrow> 'v option" where
  "obj_get obj k = map_of obj k"

text \<open>
  \<open>obj[k] = v\<close>: an existing key keeps its place, a new key is added last. (JavaScript
  enumerates integer-like keys first, in numeric order; the properties below are stated
  for tables in any key order, or through \<open>obj_get\<close>.)
\<close>

fun obj_set :: "(string \<times> 'v) list \<Rightarrow> string \<Rightarrow> 'v \<Rightarrow> (string \<times> 'v) list" where
  "obj_set [] k v = [(k, v)]"
| "obj_set ((k', v') # rest) k v =
     (if k' = k then (k, v) # rest else (k', v') # obj_set rest k v)"

text \<open>\<open>itemHeights.value[key] || 0\<close>: \<open>undefined\<close> and \<open>0\<close> both read as \<open>0\<close>.\<close>

definition height_or_0 :: "THeights \<Rightarrow> string \<Rightarrow> real" where
  "height_or_0 hs k = (case hs k of None \<Rightarrow> 0 | Some h \<Rightarrow> h)"

section \<open>The swap resolver (onUpdate of DraggableItem)\<close>

text \<open>
  The entries pushed onto \<open>sortedItems\<close>:
  \<^verbatim>\<open>{ key, index: positions.value[key], height: itemHeights.value[key] || 0 }\<close>
\<close>

record sorted_item =
  key :: string
  index :: int
  height :: real

text \<open>
  \<^verbatim>\<open>
  for (const key of keys) { if (key !== draggableItemKey.value) { sortedItems.push(...) } }
  sortedItems.sort((a, b) => a.index - b.index);
  \<close>
  \<open>Array.prototype.sort\<close> is stable, as \<open>sort_key\<close> is.
\<close>

definition sortedItems :: "TPositions \<Rightarrow> THeights \<Rightarrow> string \<Rightarrow> sorted_item list" where
  "sortedItems ps hs d =
     sort_key index
       (map (\<lambda>(k, p). \<lparr>key = k, index = p, height = height_or_0 hs k\<rparr>)
            (filter (\<lambda>(k, p). k \<noteq> d) ps))"

text \<open>
  The scan, started with \<open>runningY = 0\<close> and \<open>newPos = 0\<close>:
  \<^verbatim>\<open>
  for (const item of sortedItems) {
    const itemCenterY = runningY + item.height / 2;
    if (currentAbsoluteY < itemCenterY) { found = true; break; }
    runningY += item.height;
    newPos++;
  }
  \<close>
\<close>

fun scanNewPos :: "real \<Rightarrow> real \<Rightarrow> int \<Rightarrow> sorted_item list \<Rightarrow> int" where
  "scanNewPos currentAbsoluteY runningY newPos [] = newPos"
| "scanNewPos currentAbsoluteY runningY newPos (item # rest) =
     (if currentAbsoluteY < runningY + height item / 2 then newPos
      else scanNewPos currentAbsoluteY (runningY + height item) (newPos + 1) rest)"

text \<open>\<^verbatim>\<open>const newPosition = Math.max(0, Math.min(listLength - 1, newPos));\<close>\<close>

definition newPosition :: "int \<Rightarrow> TPositions \<Rightarrow> THeights \<Rightarrow> string \<Rightarrow> real \<Rightarrow> int" where
  "newPosition listLength ps hs d currentAbsoluteY =
     max 0 (min (listLength - 1) (scanNewPos currentAbsoluteY 0 0 (sortedItems ps hs d)))"

text \<open>
  The reassignment of one other item inside \<open>positions.modify\<close>:
  \<^verbatim>\<open>
  if (newPosition > oldPosition && itemPos > oldPosition && itemPos <= newPosition) {
    value[key] = itemPos - 1;
  } else if (newPosition < oldPosition && itemPos < oldPosition && itemPos >= newPosition) {
    value[key] = itemPos + 1;
  }
  \<close>
\<close>

definition shiftNeighbour :: "int \<Rightarrow> int \<Rightarrow> int \<Rightarrow> int" where
  "shiftNeighbour newPos oldPosition itemPos =
     (if newPos > oldPosition \<and> itemPos > oldPosition \<and> itemPos \<le> newPos then itemPos - 1
      else if newPos < oldPosition \<and> itemPos < oldPosition \<and> itemPos \<ge> newPos then itemPos + 1
      else itemPos)"

text \<open>
  The callback of \<open>positions.modify\<close>. \<open>oldPosition\<close> is read before the dragged key is
  written; when the key is missing it is \<open>undefined\<close>, every comparison with it is
  false and no other item moves. Each other key is read and written in its own
  iteration only, so the loop is a map over the entries. The loop body is guarded by
  \<^verbatim>\<open>draggableItemKey.value && key !== draggableItemKey.value\<close>.
\<close>

definition modifyPositions :: "string \<Rightarrow> int \<Rightarrow> TPositions \<Rightarrow> TPositions" where
  "modifyPositions d newPos val =
     (let oldPosition = obj_get val d in
      map (\<lambda>(k, itemPos).
             if d \<noteq> [] \<and> k \<noteq> d
             then (k, case oldPosition of None \<Rightarrow> itemPos
                                       | Some old \<Rightarrow> shiftNeighbour newPos old itemPos)
             else (k, itemPos))
          (obj_set val d newPos))"

text \<open>
  One swap resolution, the part of \<open>onUpdate\<close> that touches the position table: the
  handler returns at once when the dragged key is falsy or its stored height is exactly
  \<open>0\<close>; otherwise the target slot is computed and committed when it differs from the
  stored one (\<^verbatim>\<open>newPosition !== positions.value[draggableItemKey.value]\<close>).
\<close>

definition resolveSwap ::
  "int \<Rightarrow> THeights \<Rightarrow> string option \<Rightarrow> real \<Rightarrow> TPositions \<Rightarrow> TPositions" where
  "resolveSwap listLength hs dk currentAbsoluteY ps =
     (case dk of
        None \<Rightarrow> ps
      | Some d \<Rightarrow>
          if d = [] \<or> hs d = Some 0 then ps
          else let np = newPosition listLength ps hs d currentAbsoluteY in
               if Some np \<noteq> obj_get ps d then modifyPositions d np ps else ps)"

text \<open>A position table is a permutation: distinct keys, and the slots are exactly \<open>0 .. N-1\<close>.\<close>

definition perm_table :: "TPositions \<Rightarrow> bool" where
  "perm_table ps =
     (distinct (map fst ps) \<and> distinct (map snd ps) \<and>
      set (map snd ps) = {0 ..< int (length ps)})"

section \<open>The JavaScript array operation used by the list (Array.prototype.splice)\<close>

text \<open>
  \<open>arr.splice(start, deleteCount, ...items)\<close> returns the removed elements and leaves
  the array changed. A negative \<open>start\<close> counts from the end, a \<open>start\<close> past the end is
  the end, and no more elements are removed than there are after \<open>start\<close>.
\<close>

definition splice :: "int \<Rightarrow> nat \<Rightarrow> 'a list \<Rightarrow> 'a list \<Rightarrow> 'a list \<times> 'a list" where
  "splice start deleteCount items arr =
     (let len = int (length arr);
          actualStart = nat (if start < 0 then max (len + start) 0 else min start len);
          actualDeleteCount = min deleteCount (length arr - actualStart)
      in (take actualDeleteCount (drop actualStart arr),
          take actualStart arr @ items @ drop (actualStart + actualDeleteCount) arr))"

section \<open>Shared state of the list (DraggableList, useAutoScroll)\<close>

text \<open>
  An item is known through \<open>String(item.id)\<close>; its other fields are the record's
  extension.
\<close>

record TItem =
  item_id :: string

text \<open>
  A repeating timer of the JavaScript runtime: the handle \<open>setInterval\<close> returned
  (an object, hence always truthy) and what the callback closed over, the \<open>direction\<close>
  argument of \<open>startAutoScroll\<close> and the \<open>autoScrollSpeed\<close> of that render.
\<close>

datatype timeout = Timeout nat

record interval =
  handle :: timeout
  direction :: TAutoScrollDirection
  speed :: real

text \<open>
  The refs and shared values of \<open>DraggableList\<close>, the ref of \<open>useAutoScroll\<close>, and the
  runtime's table of live interval timers with its allocator of handles.
\<close>

record 'a list_state =
  currentOrderRef :: "'a list"
  draggableItemKey :: "string option"
  draggedItemPosition :: int
  positions :: TPositions
  itemHeights :: THeights
  containerHeight :: real
  autoScrollDirection :: TAutoScrollDirection
  scrollY :: real
  contentHeight :: real
  scrollIntervalRef :: "timeout option"
  intervals :: "interval list"
  nextTimeout :: nat

text \<open>The state right after the first render, before the data effect has run.\<close>

definition mount :: "'a list \<Rightarrow> 'a list_state" where
  "mount data =
     \<lparr>currentOrderRef = data, draggableItemKey = None, draggedItemPosition = -1,
      positions = [], itemHeights = Map.empty, containerHeight = 0,
      autoScrollDirection = Stop, scrollY = 0, contentHeight = 0,
      scrollIntervalRef = None, intervals = [], nextTimeout = 1\<rparr>"

subsection \<open>DraggableList\<close>

text \<open>
  \<^verbatim>\<open>
  const handleDragEnd = useCallback((fromIndex, toIndex) => {
    if (fromIndex === toIndex) return;
    const newData = [...currentOrderRef.current];
    const [movedItem] = newData.splice(fromIndex, 1);
    newData.splice(toIndex, 0, movedItem);
    currentOrderRef.current = newData;
  }, []);
  \<close>
  \<open>toIndex\<close> is what \<open>positions.value[key]\<close> gave, \<open>undefined\<close> (\<open>None\<close>) for a missing
  key; as a start index \<open>undefined\<close> is \<open>0\<close>. When nothing was removed \<open>movedItem\<close> is
  \<open>undefined\<close>: the parameter \<open>undef\<close> stands for that value among the items.
\<close>

definition handleDragEnd :: "'a \<Rightarrow> int \<Rightarrow> int option \<Rightarrow> 'a list \<Rightarrow> 'a list" where
  "handleDragEnd undef fromIndex toIndex order =
     (if Some fromIndex = toIndex then order
      else let (removed, newData) = splice fromIndex 1 [] order;
               movedItem = (case removed of [] \<Rightarrow> undef | x # _ \<Rightarrow> x)
           in snd (splice (case toIndex of None \<Rightarrow> 0 | Some t \<Rightarrow> t) 0 [movedItem] newData))"

text \<open>
  The effect on \<open>[data]\<close>:
  \<^verbatim>\<open>
  currentOrderRef.current = data;
  const map = {};
  data.forEach((item, index) => { map[String(item.id)] = index; });
  positions.value = map;
  \<close>
\<close>

fun forEachIndex :: "TPositions \<Rightarrow> int \<Rightarrow> 'm TItem_scheme list \<Rightarrow> TPositions" where
  "forEachIndex m i [] = m"
| "forEachIndex m i (item # rest) = forEachIndex (obj_set m (item_id item) i) (i + 1) rest"

definition dataEffect :: "'m TItem_scheme list \<Rightarrow> 'm TItem_scheme list_state \<Rightarrow> 'm TItem_scheme list_state" where
  "dataEffect data st = st\<lparr>currentOrderRef := data, positions := forEachIndex [] 0 data\<rparr>"

definition getCurrentData :: "'a list_state \<Rightarrow> 'a list" where
  "getCurrentData st = currentOrderRef st"

definition onContainerLayout :: "real \<Rightarrow> 'a list_state \<Rightarrow> 'a list_state" where
  "onContainerLayout h st = st\<lparr>containerHeight := h\<rparr>"

definition onContentSizeChange :: "real \<Rightarrow> 'a list_state \<Rightarrow> 'a list_state" where
  "onContentSizeChange h st = st\<lparr>contentHeight := h\<rparr>"

definition scrollHandler :: "real \<Rightarrow> 'a list_state \<Rightarrow> 'a list_state" where
  "scrollHandler y st = st\<lparr>scrollY := y\<rparr>"

subsection \<open>useAutoScroll\<close>

definition clearInterval :: "timeout \<Rightarrow> 'a list_state \<Rightarrow> 'a list_state" where
  "clearInterval h st = st\<lparr>intervals := filter (\<lambda>i. handle i \<noteq> h) (intervals st)\<rparr>"

definition setInterval ::
  "TAutoScrollDirection \<Rightarrow> real \<Rightarrow> 'a list_state \<Rightarrow> timeout \<times> 'a list_state" where
  "setInterval dir spd st =
     (Timeout (nextTimeout st),
      st\<lparr>intervals := intervals st @ [\<lparr>handle = Timeout (nextTimeout st), direction = dir, speed = spd\<rparr>],
         nextTimeout := nextTimeout st + 1\<rparr>)"

text \<open>
  \<^verbatim>\<open>
  if (scrollIntervalRef.current) { clearInterval(scrollIntervalRef.current); }
  scrollIntervalRef.current = setInterval(() => { ... }, 16);
  \<close>
\<close>

definition startAutoScroll ::
  "real \<Rightarrow> TAutoScrollDirection \<Rightarrow> 'a list_state \<Rightarrow> 'a list_state" where
  "startAutoScroll autoScrollSpeed dir st =
     (let st1 = (case scrollIntervalRef st of None \<Rightarrow> st | Some h \<Rightarrow> clearInterval h st);
          (h', st2) = setInterval dir autoScrollSpeed st1
      in st2\<lparr>scrollIntervalRef := Some h'\<rparr>)"

text \<open>
  \<^verbatim>\<open>
  if (scrollIntervalRef.current) {
    clearInterval(scrollIntervalRef.current);
    scrollIntervalRef.current = null;
  }
  \<close>
\<close>

definition stopAutoScroll :: "'a list_state \<Rightarrow> 'a list_state" where
  "stopAutoScroll st =
     (case scrollIntervalRef st of
        None \<Rightarrow> st
      | Some h \<Rightarrow> (clearInterval h st)\<lparr>scrollIntervalRef := None\<rparr>)"

text \<open>The cleanup of the unmount effect clears the interval and leaves the ref as it is.\<close>

definition unmountCleanup :: "'a list_state \<Rightarrow> 'a list_state" where
  "unmountCleanup st =
     (case scrollIntervalRef st of None \<Rightarrow> st | Some h \<Rightarrow> clearInterval h st)"

text \<open>
  The offset one tick computes:
  \<^verbatim>\<open>
  const maxScroll = Math.max(0, contentHeight.value - containerHeight.value);
  if (direction === 'up') { newScroll = Math.max(0, currentScroll - autoScrollSpeed); }
  else { newScroll = Math.min(maxScroll, currentScroll + autoScrollSpeed); }
  \<close>
\<close>

definition maxScroll :: "'a list_state \<Rightarrow> real" where
  "maxScroll st = max 0 (contentHeight st - containerHeight st)"

definition newScroll :: "interval \<Rightarrow> 'a list_state \<Rightarrow> real" where
  "newScroll i st =
     (if direction i = Up then max 0 (scrollY st - speed i)
      else min (maxScroll st) (scrollY st + speed i))"

text \<open>
  The callback of the interval. When the offset cannot move it clears the timer the ref
  holds (\<open>clearInterval(null)\<close> does nothing), nulls the ref and sets the direction to
  \<open>stop\<close>. Otherwise it sends \<open>scrollToOffset\<close> to the list view; the view is taken to
  jump to that offset and to report it through \<open>onScroll\<close>, which stores it in \<open>scrollY\<close>.
\<close>

definition intervalCallback :: "interval \<Rightarrow> 'a list_state \<Rightarrow> 'a list_state" where
  "intervalCallback i st =
     (if newScroll i st = scrollY st
      then (case scrollIntervalRef st of None \<Rightarrow> st | Some h \<Rightarrow> clearInterval h st)
             \<lparr>scrollIntervalRef := None, autoScrollDirection := Stop\<rparr>
      else scrollHandler (newScroll i st) st)"

text \<open>The runtime fires a timer only while it is live.\<close>

definition fire :: "timeout \<Rightarrow> 'a list_state \<Rightarrow> 'a list_state" where
  "fire h st =
     (case find (\<lambda>i. handle i = h) (intervals st) of
        None \<Rightarrow> st
      | Some i \<Rightarrow> intervalCallback i st)"

text \<open>What can happen to the coordinator, and a run of such events in order.\<close>

datatype scroll_event = StartEv TAutoScrollDirection | StopEv | FireEv timeout | UnmountEv

fun scrollStep :: "real \<Rightarrow> scroll_event \<Rightarrow> 'a list_state \<Rightarrow> 'a list_state" where
  "scrollStep autoScrollSpeed (StartEv dir) st = startAutoScroll autoScrollSpeed dir st"
| "scrollStep autoScrollSpeed StopEv st = stopAutoScroll st"
| "scrollStep autoScrollSpeed (FireEv h) st = fire h st"
| "scrollStep autoScrollSpeed UnmountEv st = unmountCleanup st"

fun scrollRun :: "real \<Rightarrow> scroll_event list \<Rightarrow> 'a list_state \<Rightarrow> 'a list_state" where
  "scrollRun autoScrollSpeed [] st = st"
| "scrollRun autoScrollSpeed (e # es) st = scrollRun autoScrollSpeed es (scrollStep autoScrollSpeed e st)"

text \<open>The timer the ref holds fires \<open>n\<close> times in a row.\<close>

fun ticks :: "nat \<Rightarrow> 'a list_state \<Rightarrow> 'a list_state" where
  "ticks 0 st = st"
| "ticks (Suc n) st =
     ticks n (case scrollIntervalRef st of None \<Rightarrow> st | Some h \<Rightarrow> fire h st)"

section \<open>The drag state machine (DraggableItem)\<close>

text \<open>
  The props an item receives from the list, as far as the handlers read them, and the
  item's own hooks. \<open>withSpring(x, ...)\<close> animates \<open>translateY\<close> toward \<open>x\<close>; the model
  keeps the target. Calls handed to \<open>scheduleOnRN\<close> run later on the JavaScript thread,
  in the order issued: each handler returns them as a list.
\<close>

record item_props =
  itemKey :: string
  itemIndex :: int
  listLength :: int
  hasOnDragStart :: bool
  hasOnDragEnd :: bool

record item_state =
  isDragging :: bool
  translateY :: real
  isDraggingShared :: bool
  targetPosition :: int
  initialScrollY :: real
  initialIndex :: int
  initialItemOffset :: real
  initialLayoutOffset :: real

datatype rn_call =
    SetIsDragging bool
  | OnDragStart int
  | OnDragEnd int "int option"
  | StartAutoScroll TAutoScrollDirection
  | StopAutoScroll

text \<open>The hooks of an item rendered at \<open>index\<close>.\<close>

definition renderItem :: "int \<Rightarrow> item_state" where
  "renderItem i =
     \<lparr>isDragging = False, translateY = 0, isDraggingShared = False, targetPosition = i,
      initialScrollY = 0, initialIndex = i, initialItemOffset = 0, initialLayoutOffset = 0\<rparr>"

text \<open>
  \<^verbatim>\<open>
  const height = e.nativeEvent.layout.height;
  if (height > 0) { itemHeights.modify((value) => { value[itemKey] = height; return value; }); }
  \<close>
\<close>

definition onLayout :: "string \<Rightarrow> real \<Rightarrow> 'a list_state \<Rightarrow> 'a list_state" where
  "onLayout k h st = (if h > 0 then st\<lparr>itemHeights := (itemHeights st)(k \<mapsto> h)\<rparr> else st)"

text \<open>
  The sums of the heights of the items above a slot, in \<open>onStart\<close> and \<open>onUpdate\<close>:
  \<^verbatim>\<open>
  for (const key of keys) {
    if (positions.value[key] < pos) { y += itemHeights.value[key] || 0; }
  }
  \<close>
  A comparison with \<open>undefined\<close> is false.
\<close>

definition heightAbove :: "string list \<Rightarrow> TPositions \<Rightarrow> THeights \<Rightarrow> int \<Rightarrow> real" where
  "heightAbove keys ps hs pos =
     foldl (\<lambda>y k. case obj_get ps k of
                     None \<Rightarrow> y
                   | Some p \<Rightarrow> if p < pos then y + height_or_0 hs k else y)
           0 keys"

text \<open>
  \<open>onStart\<close>: the item becomes the dragged one; the handler returns early, after that,
  when the stored height of the item is exactly \<open>0\<close>.
\<close>

definition onStart ::
  "item_props \<Rightarrow> 'a list_state \<times> item_state \<Rightarrow> ('a list_state \<times> item_state) \<times> rn_call list" where
  "onStart props s =
     (let (st, it) = s;
          st1 = st\<lparr>draggableItemKey := Some (itemKey props)\<rparr>;
          currentPos = (case obj_get (positions st) (itemKey props) of
                          None \<Rightarrow> itemIndex props | Some p \<Rightarrow> p);
          it1 = it\<lparr>initialScrollY := scrollY st, initialIndex := currentPos,
                   targetPosition := currentPos\<rparr>
      in if itemHeights st (itemKey props) = Some 0 then ((st1, it1), [])
         else let y = heightAbove (map fst (positions st)) (positions st) (itemHeights st) currentPos;
                  it2 = it1\<lparr>initialItemOffset := y, initialLayoutOffset := y - translateY it,
                            isDraggingShared := True\<rparr>
              in ((st1, it2),
                  SetIsDragging True # (if hasOnDragStart props then [OnDragStart (itemIndex props)] else [])))"

text \<open>
  The absolute offset of the dragged item in \<open>onUpdate\<close>:
  \<^verbatim>\<open>
  const scrollDelta = scrollY.value - initialScrollY.value;
  const compensatedTranslation = event.translationY + scrollDelta;
  const currentAbsoluteY = initialItemOffset.value + compensatedTranslation;
  \<close>
\<close>

definition currentAbsoluteY :: "'a list_state \<Rightarrow> item_state \<Rightarrow> real \<Rightarrow> real" where
  "currentAbsoluteY st it translationY =
     initialItemOffset it + (translationY + (scrollY st - initialScrollY it))"

text \<open>
  The edge check of \<open>onUpdate\<close>, with \<open>scrollZone = 100\<close>: the new direction and the call
  it schedules.
  \<^verbatim>\<open>
  if (visualY < topThreshold) {
    autoScrollDirection.value = 'up';
    if (previousDirection !== 'up') { scheduleOnRN(startAutoScroll, 'up'); }
  } else if (visualY > bottomThreshold) {
    autoScrollDirection.value = 'down';
    if (previousDirection !== 'down') { scheduleOnRN(startAutoScroll, 'down'); }
  } else {
    if (previousDirection !== 'stop') {
      autoScrollDirection.value = 'stop';
      scheduleOnRN(stopAutoScroll);
    }
  }
  \<close>
\<close>

definition edgeCheck :: "'a list_state \<Rightarrow> real \<Rightarrow> TAutoScrollDirection \<times> rn_call list" where
  "edgeCheck st absY =
     (let scrollZone = 100;
          topThreshold = scrollZone;
          bottomThreshold = containerHeight st - scrollZone * 2;
          previousDirection = autoScrollDirection st;
          visualY = absY - scrollY st
      in if visualY < topThreshold
         then (Up, if previousDirection \<noteq> Up then [StartAutoScroll Up] else [])
         else if visualY > bottomThreshold
         then (Down, if previousDirection \<noteq> Down then [StartAutoScroll Down] else [])
         else (Stop, if previousDirection \<noteq> Stop then [StopAutoScroll] else []))"

text \<open>
  \<open>onUpdate\<close>. \<open>draggableItemKey.value\<close> is falsy when it is \<open>null\<close> or the empty string.
  The keys are read once, before the table is modified; the snap offset is summed over
  those keys against the table as it is afterwards.
\<close>

definition onUpdate ::
  "item_props \<Rightarrow> real \<Rightarrow> 'a list_state \<times> item_state \<Rightarrow> ('a list_state \<times> item_state) \<times> rn_call list" where
  "onUpdate props translationY s =
     (let (st, it) = s in
      case draggableItemKey st of
        None \<Rightarrow> (s, [])
      | Some d \<Rightarrow>
          if d = [] \<or> itemHeights st d = Some 0 then (s, [])
          else
            let absY = currentAbsoluteY st it translationY;
                (dir, calls) = edgeCheck st absY;
                keys = map fst (positions st);
                np = newPosition (listLength props) (positions st) (itemHeights st) d absY;
                changed = (Some np \<noteq> obj_get (positions st) d);
                ps' = (if changed then modifyPositions d np (positions st) else positions st);
                targetY = heightAbove keys ps' (itemHeights st) np;
                snapOffset = targetY - initialLayoutOffset it;
                st' = st\<lparr>autoScrollDirection := dir, draggedItemPosition := np, positions := ps'\<rparr>;
                it' = it\<lparr>targetPosition := (if changed then np else targetPosition it),
                         translateY := snapOffset\<rparr>
            in ((st', it'), calls))"

text \<open>
  \<open>onEnd\<close>, in the file that holds the swap logic:
  \<^verbatim>\<open>
  if (!draggableItemKey.value) return;
  autoScrollDirection.value = 'stop';
  scheduleOnRN(stopAutoScroll);
  const finalPosition = positions.value[draggableItemKey.value];
  isDraggingShared.value = false;
  scheduleOnRN(setIsDragging, false);
  if (onDragEnd) { scheduleOnRN(onDragEnd, initialIndex.value, finalPosition); }
  \<close>
\<close>

definition onEnd ::
  "item_props \<Rightarrow> 'a list_state \<times> item_state \<Rightarrow> ('a list_state \<times> item_state) \<times> rn_call list" where
  "onEnd props s =
     (let (st, it) = s in
      case draggableItemKey st of
        None \<Rightarrow> (s, [])
      | Some d \<Rightarrow>
          if d = [] then (s, [])
          else
            let finalPosition = obj_get (positions st) d in
            ((st\<lparr>autoScrollDirection := Stop\<rparr>, it\<lparr>isDraggingShared := False\<rparr>),
             [StopAutoScroll, SetIsDragging False] @
             (if hasOnDragEnd props then [OnDragEnd (initialIndex it) finalPosition] else [])))"

text \<open>
  \<open>onEnd\<close> as src/components/DraggableItem.tsx has it: the same, without the write to
  \<open>autoScrollDirection\<close>.
\<close>

definition onEnd_components ::
  "item_props \<Rightarrow> 'a list_state \<times> item_state \<Rightarrow> ('a list_state \<times> item_state) \<times> rn_call list" where
  "onEnd_components props s =
     (let (st, it) = s in
      case draggableItemKey st of
        None \<Rightarrow> (s, [])
      | Some d \<Rightarrow>
          if d = [] then (s, [])
          else
            let finalPosition = obj_get (positions st) d in
            ((st, it\<lparr>isDraggingShared := False\<rparr>),
             [StopAutoScroll, SetIsDragging False] @
             (if hasOnDragEnd props then [OnDragEnd (initialIndex it) finalPosition] else [])))"

subsection \<open>The scheduled calls, run on the JavaScript thread\<close>

text \<open>
  \<open>DraggableList\<close> passes \<open>handleDragEnd\<close> as \<open>onDragEnd\<close>, its \<open>startAutoScroll\<close> and
  \<open>stopAutoScroll\<close>, and no \<open>onDragStart\<close>; \<open>setIsDragging\<close> is the item's own state.
\<close>

fun runCall ::
  "'a \<Rightarrow> real \<Rightarrow> rn_call \<Rightarrow> 'a list_state \<times> item_state \<Rightarrow> 'a list_state \<times> item_state" where
  "runCall undef autoScrollSpeed (SetIsDragging b) (st, it) = (st, it\<lparr>isDragging := b\<rparr>)"
| "runCall undef autoScrollSpeed (OnDragStart i) (st, it) = (st, it)"
| "runCall undef autoScrollSpeed (OnDragEnd fromIndex toIndex) (st, it) =
     (st\<lparr>currentOrderRef := handleDragEnd undef fromIndex toIndex (currentOrderRef st)\<rparr>, it)"
| "runCall undef autoScrollSpeed (StartAutoScroll dir) (st, it) =
     (startAutoScroll autoScrollSpeed dir st, it)"
| "runCall undef autoScrollSpeed StopAutoScroll (st, it) = (stopAutoScroll st, it)"

fun runCalls ::
  "'a \<Rightarrow> real \<Rightarrow> rn_call list \<Rightarrow> 'a list_state \<times> item_state \<Rightarrow> 'a list_state \<times> item_state" where
  "runCalls undef autoScrollSpeed [] s = s"
| "runCalls undef autoScrollSpeed (c # cs) s =
     runCalls undef autoScrollSpeed cs (runCall undef autoScrollSpeed c s)"

text \<open>A handler followed by the calls it scheduled.\<close>

definition andThenRun ::
  "'a \<Rightarrow> real \<Rightarrow> ('a list_state \<times> item_state) \<times> rn_call list \<Rightarrow> 'a list_state \<times> item_state" where
  "andThenRun undef autoScrollSpeed r = runCalls undef autoScrollSpeed (snd r) (fst r)"

section \<open>Notions the properties are stated with\<close>

text \<open>
  A run of swap resolutions. Each one is a call of \<open>onUpdate\<close>, given by what decides
  its effect on the position table: the \<open>listLength\<close> prop, the height table, the dragged
  key and the absolute offset at that moment.
\<close>

fun resolveSwaps ::
  "(int \<times> THeights \<times> string option \<times> real) list \<Rightarrow> TPositions \<Rightarrow> TPositions" where
  "resolveSwaps [] ps = ps"
| "resolveSwaps ((listLen, hs, dk, y) # rs) ps = resolveSwaps rs (resolveSwap listLen hs dk y ps)"

text \<open>The dragged key, when there is one, is a key of the table.\<close>

definition draggedInTable :: "TPositions \<Rightarrow> string option \<Rightarrow> bool" where
  "draggedInTable ps dk = (case dk of None \<Rightarrow> True | Some d \<Rightarrow> d \<in> set (map fst ps))"

text \<open>Where a slot goes when the dragged item moves from slot \<open>S\<close> to slot \<open>T\<close>.\<close>

definition moveSlot :: "int \<Rightarrow> int \<Rightarrow> int \<Rightarrow> int" where
  "moveSlot T S p = (if p = S then T else shiftNeighbour T S p)"

text \<open>
  The vertical centre of the \<open>i\<close>-th of the scanned items: the heights of the items before
  it, plus half its own.
\<close>

definition centerY :: "sorted_item list \<Rightarrow> nat \<Rightarrow> real" where
  "centerY items i = sum_list (map height (take i items)) + height (items ! i) / 2"

text \<open>The scroll offset lies between \<open>0\<close> and the scrollable extent.\<close>

definition inBounds :: "'a list_state \<Rightarrow> bool" where
  "inBounds st = (0 \<le> scrollY st \<and> scrollY st \<le> maxScroll st)"

text \<open>Every live timer is the one the ref holds, and there is at most one.\<close>

definition singleTimer :: "'a list_state \<Rightarrow> bool" where
  "singleTimer st =
     (case scrollIntervalRef st of
        None \<Rightarrow> intervals st = []
      | Some h \<Rightarrow> intervals st = [] \<or> map handle (intervals st) = [h])"

text \<open>A list without its \<open>i\<close>-th element.\<close>

definition without :: "nat \<Rightarrow> 'a list \<Rightarrow> 'a list" where
  "without i xs = take i xs @ drop (Suc i) xs"

text \<open>The calls of a list that report the end of a drag.\<close>

fun isOnDragEnd :: "rn_call \<Rightarrow> bool" where
  "isOnDragEnd (OnDragEnd fromIndex toIndex) = True"
| "isOnDragEnd c = False"

text \<open>Example data: every item measured at 60 pixels, and tables in data order.\<close>

definition all60 :: THeights where
  "all60 = (\<lambda>k. Some 60)"

definition slots3 :: TPositions where
  "slots3 = [(''a'', 0), (''b'', 1), (''c'', 2)]"

definition slots5 :: TPositions where
  "slots5 = [(''a'', 0), (''b'', 1), (''c'', 2), (''d'', 3), (''e'', 4)]"

text \<open>The item \<open>b\<close> has not been measured; the item \<open>a\<close> has not been measured.\<close>

definition heightsWithoutB :: THeights where
  "heightsWithoutB = [''a'' \<mapsto> 60, ''c'' \<mapsto> 60]"

definition heightsWithoutA :: THeights where
  "heightsWithoutA = [''b'' \<mapsto> 60, ''c'' \<mapsto> 60]"

text \<open>
  A gesture on one item, each handler followed by the calls it scheduled: \<open>onStart\<close> and
  the updates with the given translations, and then \<open>onEnd\<close>.
\<close>

fun onUpdates ::
  "'a \<Rightarrow> real \<Rightarrow> item_props \<Rightarrow> real list \<Rightarrow> 'a list_state \<times> item_state \<Rightarrow> 'a list_state \<times> item_state" where
  "onUpdates undef autoScrollSpeed props [] s = s"
| "onUpdates undef autoScrollSpeed props (translationY # rest) s =
     onUpdates undef autoScrollSpeed props rest
       (andThenRun undef autoScrollSpeed (onUpdate props translationY s))"

definition dragging ::
  "'a \<Rightarrow> real \<Rightarrow> item_props \<Rightarrow> real list \<Rightarrow> 'a list_state \<times> item_state \<Rightarrow> 'a list_state \<times> item_state" where
  "dragging undef autoScrollSpeed props translations s =
     onUpdates undef autoScrollSpeed props translations
       (andThenRun undef autoScrollSpeed (onStart props s))"

definition completedDrag ::
  "'a \<Rightarrow> real \<Rightarrow> item_props \<Rightarrow> real list \<Rightarrow> 'a list_state \<times> item_state \<Rightarrow> 'a list_state \<times> item_state" where
  "completedDrag undef autoScrollSpeed props translations s =
     andThenRun undef autoScrollSpeed
       (onEnd props (dragging undef autoScrollSpeed props translations s))"

text \<open>
  Example: the list of the items \<open>a\<close>, \<open>b\<close>, \<open>c\<close>, each measured at 60 pixels, in a
  container of 400 pixels, and the props of the item \<open>a\<close> rendered at index 0.
\<close>

definition itemA :: TItem where
  "itemA = \<lparr>item_id = ''a''\<rparr>"

definition itemB :: TItem where
  "itemB = \<lparr>item_id = ''b''\<rparr>"

definition itemC :: TItem where
  "itemC = \<lparr>item_id = ''c''\<rparr>"

definition listABC :: "TItem list_state" where
  "listABC =
     onLayout ''c'' 60 (onLayout ''b'' 60 (onLayout ''a'' 60
       (onContentSizeChange 180 (onContainerLayout 400
          (dataEffect [itemA, itemB, itemC] (mount [itemA, itemB, itemC]))))))"

definition propsA :: item_props where
  "propsA = \<lparr>itemKey = ''a'', itemIndex = 0, listLength = 3,
             hasOnDragStart = False, hasOnDragEnd = True\<rparr>"

text \<open>
  Example: content of 1000 pixels in a container of 400, scrolled to the top, with the
  auto-scroll started downward at the default speed of 8 pixels a tick.
\<close>

definition scrollingDown :: "TItem list_state" where
  "scrollingDown =
     startAutoScroll 8 Down
       ((onContentSizeChange 1000 (onContainerLayout 400 (mount [])))
          \<lparr>autoScrollDirection := Down\<rparr>)"

text \<open>The scroll offset is within the extent and every live timer has a non-negative speed.\<close>

definition steady :: "'a list_state \<Rightarrow> bool" where
  "steady st = (inBounds st \<and> list_all (\<lambda>i. 0 \<le> speed i) (intervals st))"

text \<open>
  The logical order agrees with the position table: the item at index \<open>i\<close> of the order
  holds slot \<open>i\<close>.
\<close>

definition agrees :: "'m TItem_scheme list \<Rightarrow> TPositions \<Rightarrow> bool" where
  "agrees order ps =
     (map (\<lambda>item. obj_get ps (item_id item)) order = map (\<lambda>i. Some (int i)) [0 ..< length ps])"

text \<open>
  The index in the old order of the item that is at index \<open>i\<close> after the item of index \<open>f\<close>
  has been moved to index \<open>t\<close>.
\<close>

definition cameFrom :: "nat \<Rightarrow> nat \<Rightarrow> nat \<Rightarrow> nat" where
  "cameFrom f t i =
     (if i = t then f
      else if i < t then (if i < f then i else Suc i)
      else (if i - 1 < f then i - 1 else i))"

text \<open>
  While the item \<open>d\<close> that started from slot \<open>f\<close> is dragged: the table is a permutation,
  \<open>d\<close> is the dragged key, and moving the item of index \<open>f\<close> of the order at the start
  to the slot \<open>d\<close> holds now gives an order that agrees with the table.
\<close>

definition dragInv ::
  "'m TItem_scheme \<Rightarrow> string \<Rightarrow> nat \<Rightarrow> 'm TItem_scheme list \<Rightarrow>
   'm TItem_scheme list_state \<times> item_state \<Rightarrow> bool" where
  "dragInv undef d f order0 s =
     (perm_table (positions (fst s)) \<and> draggableItemKey (fst s) = Some d \<and>
      f < length order0 \<and> length order0 = length (positions (fst s)) \<and>
      (case obj_get (positions (fst s)) d of
         None \<Rightarrow> False
       | Some p \<Rightarrow> 0 \<le> p \<and>
           agrees (handleDragEnd undef (int f) (Some p) order0) (positions (fst s))))"

section \<open>The position table stays a permutation\<close>

lemma obj_get_mem: "obj_get ps d = Some S \<Longrightarrow> (d, S) \<in> set ps"
  by (simp add: obj_get_def map_of_SomeD)

lemma obj_get_of_key:
  assumes "d \<in> set (map fst ps)"
  obtains S where "obj_get ps d = Some S"
proof -
  from assms have "d \<in> dom (map_of ps)" by (simp add: dom_map_of_conv_image_fst)
  then show ?thesis using that by (auto simp: obj_get_def)
qed

lemma obj_set_map:
  "distinct (map fst ps) \<Longrightarrow> d \<in> fst ` set ps \<Longrightarrow>
   obj_set ps d v = map (\<lambda>(k, p). if k = d then (k, v) else (k, p)) ps"
proof (induction ps)
  case Nil
  then show ?case by simp
next
  case (Cons a ps)
  obtain k p where a: "a = (k, p)" by (cases a)
  show ?case
  proof (cases "k = d")
    case True
    with Cons.prems a have "d \<notin> fst ` set ps" by auto
    then have "map (\<lambda>(k, p). if k = d then (k, v) else (k, p)) ps = ps"
      by (induction ps) auto
    with True a show ?thesis by simp
  next
    case False
    with Cons a show ?thesis by auto
  qed
qed

lemma modifyPositions_map:
  assumes "distinct (map fst ps)" "obj_get ps d = Some S" "d \<noteq> []"
  shows "modifyPositions d T ps =
         map (\<lambda>(k, p). (k, if k = d then T else shiftNeighbour T S p)) ps"
proof -
  from assms(2) have "d \<in> fst ` set ps"
    by (force dest: obj_get_mem)
  with assms show ?thesis
    by (simp add: modifyPositions_def obj_set_map case_prod_unfold comp_def)
qed

lemma moveSlot_inj: "inj (moveSlot T S)"
  unfolding inj_def moveSlot_def shiftNeighbour_def
  by (auto split: if_splits)

lemma moveSlot_range:
  "0 \<le> S \<Longrightarrow> S < n \<Longrightarrow> 0 \<le> T \<Longrightarrow> T < n \<Longrightarrow> 0 \<le> p \<Longrightarrow> p < n \<Longrightarrow>
   0 \<le> moveSlot T S p \<and> moveSlot T S p < n"
  unfolding moveSlot_def shiftNeighbour_def by auto

lemma modifyPositions_slots:
  assumes "distinct (map fst ps)" "distinct (map snd ps)" "obj_get ps d = Some S" "d \<noteq> []"
  shows "map snd (modifyPositions d T ps) = map (moveSlot T S) (map snd ps)"
proof -
  from assms(3) have mem: "(d, S) \<in> set ps" by (rule obj_get_mem)
  from assms(1) have injf: "inj_on fst (set ps)" by (simp add: distinct_map)
  from assms(2) have injs: "inj_on snd (set ps)" by (simp add: distinct_map)
  have eq: "(k = d) = (p = S)" if kp: "(k, p) \<in> set ps" for k p
  proof
    assume "k = d"
    with inj_onD[OF injf, of "(k, p)" "(d, S)"] kp mem show "p = S" by simp
  next
    assume "p = S"
    with inj_onD[OF injs, of "(k, p)" "(d, S)"] kp mem show "k = d" by simp
  qed
  have "map snd (map (\<lambda>(k, p). (k, if k = d then T else shiftNeighbour T S p)) ps)
        = map (moveSlot T S) (map snd ps)"
    using eq by (auto simp: moveSlot_def)
  then show ?thesis
    unfolding modifyPositions_map[OF assms(1,3,4)] .
qed

lemma modifyPositions_keys:
  assumes "distinct (map fst ps)" "obj_get ps d = Some S" "d \<noteq> []"
  shows "map fst (modifyPositions d T ps) = map fst ps"
  using assms by (simp add: modifyPositions_map case_prod_unfold comp_def)

text \<open>
  One reassignment, for any target slot of the table: the dragged item goes from its slot
  \<open>S\<close> to \<open>T\<close>, the items between shift by one toward \<open>S\<close>, and the table is a
  permutation again.
\<close>

lemma modifyPositions_perm_table:
  assumes "perm_table ps" "obj_get ps d = Some S" "d \<noteq> []" "0 \<le> T" "T < int (length ps)"
  shows "perm_table (modifyPositions d T ps)"
proof -
  let ?n = "int (length ps)"
  from assms(1) have dk: "distinct (map fst ps)" and ds: "distinct (map snd ps)"
    and range: "set (map snd ps) = {0 ..< ?n}" by (simp_all add: perm_table_def)
  from assms(2) have "(d, S) \<in> set ps" by (rule obj_get_mem)
  then have "S \<in> set (map snd ps)" by force
  with range have S: "0 \<le> S" "S < ?n" by auto
  have slots: "map snd (modifyPositions d T ps) = map (moveSlot T S) (map snd ps)"
    using dk ds assms(2,3) by (rule modifyPositions_slots)
  have keys: "map fst (modifyPositions d T ps) = map fst ps"
    using dk assms(2,3) by (rule modifyPositions_keys)
  have len: "length (modifyPositions d T ps) = length ps"
    using arg_cong[OF keys, of length] by simp
  have inj: "inj_on (moveSlot T S) A" for A
    using moveSlot_inj by (rule inj_on_subset) simp
  have d': "distinct (map snd (modifyPositions d T ps))"
    unfolding slots by (rule iffD2[OF distinct_map]) (intro conjI ds inj)
  have sub: "moveSlot T S ` {0 ..< ?n} \<subseteq> {0 ..< ?n}"
    using moveSlot_range[OF S assms(4,5)] by auto
  have surj: "moveSlot T S ` {0 ..< ?n} = {0 ..< ?n}"
    using _ sub inj by (rule endo_inj_surj) simp
  have "set (map snd (modifyPositions d T ps)) = moveSlot T S ` set (map snd ps)"
    unfolding slots by (rule set_map)
  also have "\<dots> = moveSlot T S ` {0 ..< ?n}" by (simp only: range)
  also have "\<dots> = {0 ..< ?n}" by (rule surj)
  finally have "set (map snd (modifyPositions d T ps)) = {0 ..< ?n}" .
  with d' keys dk len show ?thesis by (simp add: perm_table_def)
qed

lemma scanNewPos_bounds:
  "n \<le> scanNewPos y r n items \<and> scanNewPos y r n items \<le> n + int (length items)"
proof (induction items arbitrary: r n)
  case Nil
  show ?case by simp
next
  case (Cons item rest)
  from Cons.IH[of "n + 1" "r + height item"] show ?case by simp
qed

lemma length_filter_other:
  "distinct (map fst ps) \<Longrightarrow> (d, S) \<in> set ps \<Longrightarrow>
   Suc (length (filter (\<lambda>(k, p). k \<noteq> d) ps)) = length ps"
proof (induction ps)
  case Nil
  then show ?case by simp
next
  case (Cons a ps)
  obtain k p where a: "a = (k, p)" by (cases a)
  show ?case
  proof (cases "k = d")
    case True
    with Cons.prems a have "d \<notin> fst ` set ps" by auto
    then have "filter (\<lambda>(k, p). k \<noteq> d) ps = ps"
      by (induction ps) auto
    with True a show ?thesis by simp
  next
    case False
    with Cons a show ?thesis by auto
  qed
qed

lemma length_sortedItems:
  assumes "distinct (map fst ps)" "obj_get ps d = Some S"
  shows "int (length (sortedItems ps hs d)) = int (length ps) - 1"
proof -
  from assms(2) have "(d, S) \<in> set ps" by (rule obj_get_mem)
  with assms(1) have "Suc (length (filter (\<lambda>(k, p). k \<noteq> d) ps)) = length ps"
    by (rule length_filter_other)
  then show ?thesis by (simp add: sortedItems_def)
qed

text \<open>The target slot is a slot of the table, whatever \<open>listLength\<close> the item was given.\<close>

lemma newPosition_range:
  assumes "distinct (map fst ps)" "obj_get ps d = Some S"
  shows "0 \<le> newPosition L ps hs d y \<and> newPosition L ps hs d y < int (length ps)"
proof -
  let ?s = "scanNewPos y 0 0 (sortedItems ps hs d)"
  from scanNewPos_bounds[of 0 y 0 "sortedItems ps hs d"] length_sortedItems[OF assms, of hs]
  have "0 \<le> ?s" "?s < int (length ps)" by simp_all
  then show ?thesis unfolding newPosition_def by linarith
qed

lemma resolveSwap_perm_table:
  assumes "perm_table ps" "draggedInTable ps dk"
  shows "perm_table (resolveSwap L hs dk y ps)"
proof (cases dk)
  case None
  with assms(1) show ?thesis by (simp add: resolveSwap_def)
next
  case (Some d)
  from assms(1) have dk: "distinct (map fst ps)" by (simp add: perm_table_def)
  from Some assms(2) have "d \<in> set (map fst ps)" by (simp add: draggedInTable_def)
  then obtain S where S: "obj_get ps d = Some S" by (rule obj_get_of_key)
  show ?thesis
  proof (cases "d = [] \<or> hs d = Some 0 \<or> Some (newPosition L ps hs d y) = obj_get ps d")
    case True
    with Some assms(1) show ?thesis by (auto simp: resolveSwap_def Let_def)
  next
    case False
    then have "resolveSwap L hs dk y ps = modifyPositions d (newPosition L ps hs d y) ps"
      using Some by (simp add: resolveSwap_def Let_def)
    moreover from False newPosition_range[OF dk S, of L hs y]
    have "perm_table (modifyPositions d (newPosition L ps hs d y) ps)"
      by (intro modifyPositions_perm_table[OF assms(1) S]) simp_all
    ultimately show ?thesis by simp
  qed
qed

lemma resolveSwap_keys:
  assumes "distinct (map fst ps)" "draggedInTable ps dk"
  shows "map fst (resolveSwap L hs dk y ps) = map fst ps"
proof (cases dk)
  case None
  then show ?thesis by (simp add: resolveSwap_def)
next
  case (Some d)
  from Some assms(2) have "d \<in> set (map fst ps)" by (simp add: draggedInTable_def)
  then obtain S where S: "obj_get ps d = Some S" by (rule obj_get_of_key)
  show ?thesis
  proof (cases "d = []")
    case True
    with Some show ?thesis by (simp add: resolveSwap_def)
  next
    case False
    from modifyPositions_keys[OF assms(1) S False] Some
    show ?thesis by (simp add: resolveSwap_def Let_def)
  qed
qed

text \<open>What \<open>onUpdate\<close> does to the position table is one swap resolution.\<close>

lemma onUpdate_positions:
  "positions (fst (fst (onUpdate props ty (st, it)))) =
   resolveSwap (listLength props) (itemHeights st) (draggableItemKey st)
     (currentAbsoluteY st it ty) (positions st)"
  by (simp add: onUpdate_def resolveSwap_def Let_def split: option.split prod.split)

section \<open>What the scan of the swap resolver computes\<close>

lemma centerY_0: "centerY (item # rest) 0 = height item / 2"
  by (simp add: centerY_def)

lemma centerY_Suc: "centerY (item # rest) (Suc j) = height item + centerY rest j"
  by (simp add: centerY_def)

lemma centerY_nonneg:
  "\<forall>it \<in> set items. 0 \<le> height it \<Longrightarrow> i < length items \<Longrightarrow> 0 \<le> centerY items i"
proof -
  assume a: "\<forall>it \<in> set items. 0 \<le> height it" and i: "i < length items"
  have "0 \<le> sum_list (map height (take i items))"
    by (rule sum_list_nonneg) (use a in \<open>auto dest: in_set_takeD\<close>)
  moreover from a i have "0 \<le> height (items ! i)" by simp
  ultimately show ?thesis by (simp add: centerY_def)
qed

lemma scanNewPos_shift: "scanNewPos y r (n + k) items = scanNewPos y r n items + k"
proof (induction items arbitrary: r n)
  case Nil
  show ?case by simp
next
  case (Cons item rest)
  from Cons.IH[of "r + height item" "n + 1"] show ?case by (simp add: add.commute add.left_commute)
qed

text \<open>
  The scan stops at the first item whose centre exceeds the offset: every item before
  the result has its centre at or below the offset, and the item at the result, when
  there is one, has its centre above it.
\<close>

lemma scanNewPos_first:
  "\<exists>k. scanNewPos y r n items = n + int k \<and> k \<le> length items \<and>
       (\<forall>j<k. r + centerY items j \<le> y) \<and>
       (k < length items \<longrightarrow> y < r + centerY items k)"
proof (induction items arbitrary: r n)
  case Nil
  show ?case by simp
next
  case (Cons item rest)
  show ?case
  proof (cases "y < r + height item / 2")
    case True
    then have "scanNewPos y r n (item # rest) = n + int 0 \<and> 0 \<le> length (item # rest) \<and>
       (\<forall>j<0. r + centerY (item # rest) j \<le> y) \<and>
       (0 < length (item # rest) \<longrightarrow> y < r + centerY (item # rest) 0)"
      by (simp add: centerY_0)
    then show ?thesis by blast
  next
    case False
    from Cons.IH[of "r + height item" "n + 1"] obtain k where
      k: "scanNewPos y (r + height item) (n + 1) rest = n + 1 + int k" "k \<le> length rest"
         "\<forall>j<k. r + height item + centerY rest j \<le> y"
         "k < length rest \<longrightarrow> y < r + height item + centerY rest k"
      by blast
    have all: "\<forall>j<Suc k. r + centerY (item # rest) j \<le> y"
    proof (intro allI impI)
      fix j assume "j < Suc k"
      then show "r + centerY (item # rest) j \<le> y"
        using False k(3) by (cases j) (simp_all add: centerY_0 centerY_Suc add.assoc)
    qed
    have "scanNewPos y r n (item # rest) = n + int (Suc k) \<and> Suc k \<le> length (item # rest) \<and>
       (Suc k < length (item # rest) \<longrightarrow> y < r + centerY (item # rest) (Suc k))"
      using False k by (simp add: centerY_Suc add.assoc)
    with all show ?thesis by blast
  qed
qed

lemma scanNewPos_gt_iff:
  "\<forall>it \<in> set items. 0 \<le> height it \<Longrightarrow> i < length items \<Longrightarrow>
   (n + int i < scanNewPos y r n items) = (r + centerY items i \<le> y)"
proof (induction items arbitrary: r n i)
  case Nil
  then show ?case by simp
next
  case (Cons item rest)
  have h: "0 \<le> height item" using Cons.prems(1) by simp
  show ?case
  proof (cases "y < r + height item / 2")
    case True
    have "0 \<le> centerY (item # rest) i" using Cons.prems by (rule centerY_nonneg)
    have "height item / 2 \<le> centerY (item # rest) i"
    proof (cases i)
      case 0
      then show ?thesis by (simp add: centerY_0)
    next
      case (Suc j)
      with Cons.prems have "0 \<le> centerY rest j" by (intro centerY_nonneg) simp_all
      with Suc h show ?thesis by (simp add: centerY_Suc)
    qed
    with True show ?thesis by simp
  next
    case False
    show ?thesis
    proof (cases i)
      case 0
      with False scanNewPos_bounds[of "n + 1" y "r + height item" rest]
      show ?thesis by (simp add: centerY_0)
    next
      case (Suc j)
      with Cons.prems have "(n + 1 + int j < scanNewPos y (r + height item) (n + 1) rest)
          = (r + height item + centerY rest j \<le> y)"
        by (intro Cons.IH) simp_all
      with False Suc show ?thesis by (simp add: centerY_Suc add.assoc)
    qed
  qed
qed

lemma scanNewPos_zero_height:
  "\<forall>it \<in> set (pre @ post). 0 \<le> height it \<Longrightarrow> height z = 0 \<Longrightarrow>
   scanNewPos y r n (pre @ z # post) =
   scanNewPos y r n (pre @ post) + (if r + sum_list (map height pre) \<le> y then 1 else 0)"
proof (induction pre arbitrary: r n)
  case Nil
  show ?case
  proof (cases "y < r")
    case True
    with Nil show ?thesis by (cases post) auto
  next
    case False
    with Nil scanNewPos_shift[of y r n 1 post] show ?thesis by simp
  qed
next
  case (Cons a pre)
  have h: "0 \<le> height a" using Cons.prems(1) by simp
  have s: "0 \<le> sum_list (map height pre)"
    by (rule sum_list_nonneg) (use Cons.prems(1) in auto)
  show ?case
  proof (cases "y < r + height a / 2")
    case True
    with h s show ?thesis by simp
  next
    case False
    from Cons.prems have "scanNewPos y (r + height a) (n + 1) (pre @ z # post) =
      scanNewPos y (r + height a) (n + 1) (pre @ post) +
        (if r + height a + sum_list (map height pre) \<le> y then 1 else 0)"
      by (intro Cons.IH) simp_all
    with False show ?thesis by (simp add: add.assoc)
  qed
qed

lemma sorted_sortedItems: "sorted (map index (sortedItems ps hs d))"
  by (simp add: sortedItems_def)

lemma keys_sortedItems: "set (map key (sortedItems ps hs d)) = set (map fst ps) - {d}"
  by (force simp: sortedItems_def image_iff)

lemma slots_of_others:
  assumes "distinct (map fst ps)" "distinct (map snd ps)" "obj_get ps d = Some S"
  shows "set (map snd (filter (\<lambda>(k, p). k \<noteq> d) ps)) = set (map snd ps) - {S}"
proof -
  from assms(3) have mem: "(d, S) \<in> set ps" by (rule obj_get_mem)
  from assms(1) have injf: "inj_on fst (set ps)" by (simp add: distinct_map)
  from assms(2) have injs: "inj_on snd (set ps)" by (simp add: distinct_map)
  have eq: "(k = d) = (p = S)" if kp: "(k, p) \<in> set ps" for k p
  proof
    assume "k = d"
    with inj_onD[OF injf, of "(k, p)" "(d, S)"] kp mem show "p = S" by simp
  next
    assume "p = S"
    with inj_onD[OF injs, of "(k, p)" "(d, S)"] kp mem show "k = d" by simp
  qed
  then show ?thesis by (force simp: image_iff)
qed

text \<open>
  On a permutation table the scanned items hold the slots \<open>0 .. N-1\<close> without the slot
  \<open>S\<close> of the dragged item, in that order: the \<open>k\<close>-th of them holds slot \<open>k\<close> when it
  lies above the dragged item and slot \<open>k + 1\<close> when it lies below.
\<close>

lemma sortedItems_slots:
  assumes "perm_table ps" "obj_get ps d = Some S"
  shows "map index (sortedItems ps hs d) = [0 .. S - 1] @ [S + 1 .. int (length ps) - 1]"
proof (rule sorted_distinct_set_unique)
  from assms(1) have dk: "distinct (map fst ps)" and ds: "distinct (map snd ps)"
    and range: "set (map snd ps) = {0 ..< int (length ps)}" by (simp_all add: perm_table_def)
  let ?others = "filter (\<lambda>(k, p). k \<noteq> d) ps"
  have idx: "map index (sortedItems ps hs d) = map index (sort_key index
      (map (\<lambda>(k, p). \<lparr>key = k, index = p, height = height_or_0 hs k\<rparr>) ?others))"
    by (simp add: sortedItems_def)
  show "sorted (map index (sortedItems ps hs d))" by (simp add: sortedItems_def)
  have "distinct (map snd ?others)" using ds by (rule distinct_map_filter)
  then have "distinct (map index (map (\<lambda>(k, p). \<lparr>key = k, index = p, height = height_or_0 hs k\<rparr>) ?others))"
    by (simp add: comp_def case_prod_unfold)
  then show "distinct (map index (sortedItems ps hs d))"
    unfolding idx by (simp only: distinct_map set_sort distinct_sort) 
  have "set (map index (sortedItems ps hs d)) = set (map snd ?others)"
    by (force simp: sortedItems_def image_iff)
  also have "\<dots> = {0 ..< int (length ps)} - {S}"
    using slots_of_others[OF dk ds assms(2)] range by simp
  also have "\<dots> = set ([0 .. S - 1] @ [S + 1 .. int (length ps) - 1])"
  proof -
    from assms(2) have "(d, S) \<in> set ps" by (rule obj_get_mem)
    then have "S \<in> set (map snd ps)" by force
    with range have "0 \<le> S" "S < int (length ps)" by auto
    then show ?thesis by auto
  qed
  finally show "set (map index (sortedItems ps hs d)) = set ([0 .. S - 1] @ [S + 1 .. int (length ps) - 1])" .
  show "sorted ([0 .. S - 1] @ [S + 1 .. int (length ps) - 1])"
    by (auto simp: sorted_append)
  show "distinct ([0 .. S - 1] @ [S + 1 .. int (length ps) - 1])" by auto
qed

lemma sortedItems_index:
  assumes "perm_table ps" "obj_get ps d = Some S" "k < length (sortedItems ps hs d)"
  shows "index (sortedItems ps hs d ! k) = (if int k < S then int k else int k + 1)"
proof -
  from assms(1) have dk: "distinct (map fst ps)"
    and range: "set (map snd ps) = {0 ..< int (length ps)}" by (simp_all add: perm_table_def)
  from assms(2) have "(d, S) \<in> set ps" by (rule obj_get_mem)
  then have "S \<in> set (map snd ps)" by force
  with range have S: "0 \<le> S" "S < int (length ps)" by auto
  from length_sortedItems[OF dk assms(2), of hs] assms(3)
  have k: "int k < int (length ps) - 1" by simp
  have "index (sortedItems ps hs d ! k) = map index (sortedItems ps hs d) ! k"
    using assms(3) by simp
  also have "\<dots> = ([0 .. S - 1] @ [S + 1 .. int (length ps) - 1]) ! k"
    by (simp only: sortedItems_slots[OF assms(1,2)])
  also have "\<dots> = (if int k < S then int k else int k + 1)"
  proof (cases "int k < S")
    case True
    then have "k < nat S" by linarith
    moreover from True have "[0 .. S - 1] ! k = 0 + int k" by (intro nth_upto) linarith
    ultimately show ?thesis using True S by (simp add: nth_append)
  next
    case False
    then have "\<not> k < nat S" by linarith
    moreover from False S k have "[S + 1 .. int (length ps) - 1] ! (k - nat S) = S + 1 + int (k - nat S)"
      by (intro nth_upto) linarith
    ultimately show ?thesis using False S by (simp add: nth_append)
  qed
  finally show ?thesis .
qed

text \<open>
  C6, as the code has it. The swap resolver scans the non-dragged items sorted by slot,
  accumulating the running height, and stops at the first item whose vertical centre
  exceeds the dragged offset. The count is the number of items before that one (all of
  them when no centre exceeds the offset); the target is the count clamped to
  \<open>0 .. listLength - 1\<close>, and it is a slot of the table. When the table is a permutation
  and \<open>listLength\<close> is not smaller than the number of its entries, the clamp cuts nothing:
  the target is the count; it is the slot of the item the scan stopped at when that item
  lies above the dragged item's slot, the slot before it when that item lies below, and
  the last slot when no centre exceeds the offset. With five items of 60 pixels in slots
  0 to 4 and the item of slot 0 dragged to offset 190, the target slot is 3; with a
  \<open>listLength\<close> of 3 against the same table the clamp gives 2.
\<close>

theorem swap_resolver_target:
  "(let items = sortedItems ps hs d; s = scanNewPos y 0 0 items;
        target = newPosition L ps hs d y in
      sorted (map index items) \<and> set (map key items) = set (map fst ps) - {d} \<and>
      0 \<le> s \<and> nat s \<le> length items \<and>
      (\<forall>j < nat s. centerY items j \<le> y) \<and>
      (nat s < length items \<longrightarrow> y < centerY items (nat s)) \<and>
      target = max 0 (min (L - 1) s) \<and>
      (perm_table ps \<and> obj_get ps d = Some S \<and> nat s < length items \<longrightarrow>
         index (items ! nat s) = (if s < S then s else s + 1)) \<and>
      (perm_table ps \<and> obj_get ps d = Some S \<and> int (length ps) \<le> L \<longrightarrow>
         target = s \<and>
         (nat target < length items \<longrightarrow>
            y < centerY items (nat target) \<and>
            index (items ! nat target) \<noteq> S \<and>
            (index (items ! nat target) < S \<longrightarrow> target = index (items ! nat target)) \<and>
            (S < index (items ! nat target) \<longrightarrow> target = index (items ! nat target) - 1)) \<and>
         (nat target = length items \<longrightarrow> target = int (length ps) - 1))) \<and>
   (distinct (map fst ps) \<and> d \<in> set (map fst ps) \<longrightarrow>
      0 \<le> newPosition L ps hs d y \<and> newPosition L ps hs d y < int (length ps)) \<and>
   newPosition 5 slots5 all60 ''a'' 190 = 3 \<and>
   newPosition 3 slots5 all60 ''a'' 190 = 2"
proof -
  let ?items = "sortedItems ps hs d"
  let ?t = "newPosition L ps hs d y"
  from scanNewPos_first[of y 0 0 ?items] obtain k where
    k: "scanNewPos y 0 0 ?items = int k" "k \<le> length ?items"
       "\<forall>j<k. centerY ?items j \<le> y" "k < length ?items \<longrightarrow> y < centerY ?items k"
    by auto
  have slot: "index (?items ! k) = (if int k < S then int k else int k + 1)"
    if "perm_table ps \<and> obj_get ps d = Some S \<and> k < length ?items"
    using that by (intro sortedItems_index) simp_all
  have t: "?t = max 0 (min (L - 1) (int k))"
    by (simp add: newPosition_def k(1))
  have clamped: "?t = int k \<and>
      (nat ?t < length ?items \<longrightarrow>
         y < centerY ?items (nat ?t) \<and>
         index (?items ! nat ?t) \<noteq> S \<and>
         (index (?items ! nat ?t) < S \<longrightarrow> ?t = index (?items ! nat ?t)) \<and>
         (S < index (?items ! nat ?t) \<longrightarrow> ?t = index (?items ! nat ?t) - 1)) \<and>
      (nat ?t = length ?items \<longrightarrow> ?t = int (length ps) - 1)"
    if h: "perm_table ps \<and> obj_get ps d = Some S \<and> int (length ps) \<le> L"
  proof -
    from h have dk: "distinct (map fst ps)" by (simp add: perm_table_def)
    from h have len: "int (length ?items) = int (length ps) - 1"
      by (intro length_sortedItems[OF dk]) simp
    from k(2) len h have "int k \<le> L - 1" by linarith
    with t have tk: "?t = int k" by linarith
    have stop: "y < centerY ?items k \<and> index (?items ! k) \<noteq> S \<and>
                (index (?items ! k) < S \<longrightarrow> int k = index (?items ! k)) \<and>
                (S < index (?items ! k) \<longrightarrow> int k = index (?items ! k) - 1)"
      if "k < length ?items"
    proof -
      from slot h that have "index (?items ! k) = (if int k < S then int k else int k + 1)"
        by blast
      with k(4) that show ?thesis by (simp split: if_splits)
    qed
    have last: "int k = int (length ps) - 1" if "k = length ?items"
      using that len by simp
    show ?thesis unfolding tk nat_int using stop last by blast
  qed
  have counted: "sorted (map index ?items) \<and> set (map key ?items) = set (map fst ps) - {d} \<and>
      0 \<le> int k \<and> nat (int k) \<le> length ?items \<and>
      (\<forall>j < nat (int k). centerY ?items j \<le> y) \<and>
      (nat (int k) < length ?items \<longrightarrow> y < centerY ?items (nat (int k))) \<and>
      ?t = max 0 (min (L - 1) (int k)) \<and>
      (perm_table ps \<and> obj_get ps d = Some S \<and> nat (int k) < length ?items \<longrightarrow>
         index (?items ! nat (int k)) = (if int k < S then int k else int k + 1))"
    using k(2-4) keys_sortedItems[of ps hs d] slot
    by (simp add: sorted_sortedItems newPosition_def k(1))
  have scan: "let items = ?items; s = scanNewPos y 0 0 items; target = ?t in
      sorted (map index items) \<and> set (map key items) = set (map fst ps) - {d} \<and>
      0 \<le> s \<and> nat s \<le> length items \<and>
      (\<forall>j < nat s. centerY items j \<le> y) \<and>
      (nat s < length items \<longrightarrow> y < centerY items (nat s)) \<and>
      target = max 0 (min (L - 1) s) \<and>
      (perm_table ps \<and> obj_get ps d = Some S \<and> nat s < length items \<longrightarrow>
         index (items ! nat s) = (if s < S then s else s + 1)) \<and>
      (perm_table ps \<and> obj_get ps d = Some S \<and> int (length ps) \<le> L \<longrightarrow>
         target = s \<and>
         (nat target < length items \<longrightarrow>
            y < centerY items (nat target) \<and>
            index (items ! nat target) \<noteq> S \<and>
            (index (items ! nat target) < S \<longrightarrow> target = index (items ! nat target)) \<and>
            (S < index (items ! nat target) \<longrightarrow> target = index (items ! nat target) - 1)) \<and>
         (nat target = length items \<longrightarrow> target = int (length ps) - 1))"
    unfolding Let_def k(1) using counted clamped by blast
  have range: "0 \<le> newPosition L ps hs d y \<and> newPosition L ps hs d y < int (length ps)"
    if "distinct (map fst ps) \<and> d \<in> set (map fst ps)"
  proof -
    from that obtain S' where "obj_get ps d = Some S'" by (blast elim: obj_get_of_key)
    with that show ?thesis by (intro newPosition_range) simp_all
  qed
  have ex: "newPosition 5 slots5 all60 ''a'' 190 = 3" by code_simp
  have ex2: "newPosition 3 slots5 all60 ''a'' 190 = 2" by code_simp
  from scan range ex ex2 show ?thesis by blast
qed

theorem swap_resolver_target_witness:
  "perm_table slots5 \<and> obj_get slots5 ''a'' = Some 0 \<and> int (length slots5) \<le> 5 \<and>
   distinct (map fst slots5) \<and> ''a'' \<in> set (map fst slots5) \<and>
   scanNewPos 190 0 0 (sortedItems slots5 all60 ''a'') = 3 \<and>
   (2 :: nat) < nat 3 \<and> nat 3 < length (sortedItems slots5 all60 ''a'') \<and>
   centerY (sortedItems slots5 all60 ''a'') 2 \<le> 190 \<and>
   190 < centerY (sortedItems slots5 all60 ''a'') (nat 3) \<and>
   index (sortedItems slots5 all60 ''a'' ! nat 3) = 4 \<and>
   newPosition 5 slots5 all60 ''a'' 190 = 3 \<and>
   (0 :: int) < index (sortedItems slots5 all60 ''a'' ! nat 3) \<and>
   newPosition 5 slots5 all60 ''a'' 190 = index (sortedItems slots5 all60 ''a'' ! nat 3) - 1 \<and>
   0 \<le> newPosition 5 slots5 all60 ''a'' 190 \<and>
   newPosition 5 slots5 all60 ''a'' 190 < int (length slots5)"
proof -
  have s: "scanNewPos 190 0 0 (sortedItems slots5 all60 ''a'') = 3" by code_simp
  have l: "length (sortedItems slots5 all60 ''a'') = 4" by code_simp
  have d: "distinct (map fst slots5) \<and> ''a'' \<in> set (map fst slots5)"
    by (simp add: slots5_def)
  have n: "int (length slots5) \<le> 5" by (simp add: slots5_def)
  have p: "perm_table slots5" by code_simp
  have o: "obj_get slots5 ''a'' = Some 0" by code_simp
  from swap_resolver_target[of slots5 all60 "''a''" 190 5 0] s l d p o n
  show ?thesis by (simp add: Let_def)
qed

text \<open>
  C6 as claimed fails on its own example: the first item whose centre exceeds the offset
  190 is \<open>e\<close>, the fourth of the scanned items, with its centre at 210; it holds slot 4,
  and the target slot is 3.
\<close>

theorem swap_target_counterexample:
  "centerY (sortedItems slots5 all60 ''a'') 2 = 150 \<and>
   centerY (sortedItems slots5 all60 ''a'') 3 = 210 \<and>
   key (sortedItems slots5 all60 ''a'' ! 3) = ''e'' \<and>
   index (sortedItems slots5 all60 ''a'' ! 3) = 4 \<and>
   obj_get slots5 ''e'' = Some 4 \<and>
   newPosition 5 slots5 all60 ''a'' 190 = 3"
  by code_simp

text \<open>
  C3, as the code has it. The scan stops at an item only when the offset is strictly below
  its centre (\<open>currentAbsoluteY < itemCenterY\<close>), so an offset exactly equal to the centre
  of a non-dragged item counts that item as passed: with non-negative heights, the
  \<open>i\<close>-th scanned item is passed exactly when its centre is at or below the offset. Where
  the clamp to \<open>listLength - 1\<close> does not cut, the dragged item keeps the lower slot only
  while the offset is strictly below the centre.
\<close>

theorem centre_reached_counts_as_passed:
  assumes "list_all (\<lambda>it. 0 \<le> height it) items" and "i < length items"
  shows "(int i < scanNewPos y 0 0 items) = (centerY items i \<le> y)"
proof -
  from assms(1) have "\<forall>it \<in> set items. 0 \<le> height it" by (simp add: list_all_iff)
  from scanNewPos_gt_iff[OF this assms(2), of 0 y 0] show ?thesis by simp
qed

theorem centre_reached_counts_as_passed_witness:
  "list_all (\<lambda>it. 0 \<le> height it) (sortedItems slots3 all60 ''a'') \<and>
   (0 :: nat) < length (sortedItems slots3 all60 ''a'') \<and>
   centerY (sortedItems slots3 all60 ''a'') 0 = 30 \<and>
   int 0 < scanNewPos 30 0 0 (sortedItems slots3 all60 ''a'') \<and>
   \<not> int 0 < scanNewPos 29 0 0 (sortedItems slots3 all60 ''a'')"
proof -
  let ?items = "sortedItems slots3 all60 ''a''"
  have h: "list_all (\<lambda>it. 0 \<le> height it) ?items" by code_simp
  have l: "(0 :: nat) < length ?items" by code_simp
  have c: "centerY ?items 0 = 30" by code_simp
  from centre_reached_counts_as_passed[OF h l, of 30]
       centre_reached_counts_as_passed[OF h l, of 29] h l c
  show ?thesis by simp
qed

text \<open>
  C3 as claimed fails: with the item of slot 0 dragged over an item whose centre is at 30,
  the offset 30 resolves to slot 1 and is committed, the offset 29 resolves to slot 0.
\<close>

theorem centre_tie_counterexample:
  "centerY (sortedItems slots3 all60 ''a'') 0 = 30 \<and>
   newPosition 3 slots3 all60 ''a'' 30 = 1 \<and>
   newPosition 3 slots3 all60 ''a'' 29 = 0 \<and>
   resolveSwap 3 all60 (Some ''a'') 30 slots3 = [(''a'', 1), (''b'', 0), (''c'', 2)] \<and>
   resolveSwap 3 all60 (Some ''a'') 29 slots3 = slots3"
  by code_simp

text \<open>
  C7, as the code has it. A non-dragged item that has not been measured enters the scan
  with height 0. It adds nothing to the running height, so the centres of the items after
  it are what they are without it; it is not skipped: it counts as passed as soon as the
  offset reaches the heights of the items before it, and the scan result is then one more
  than without it, and otherwise the same (heights non-negative).
\<close>

theorem zero_height_item_in_scan:
  assumes "list_all (\<lambda>it. 0 \<le> height it) (pre @ post)" and "height z = 0"
  shows "scanNewPos y 0 0 (pre @ z # post) =
           scanNewPos y 0 0 (pre @ post) + (if sum_list (map height pre) \<le> y then 1 else 0) \<and>
         (\<forall>j < length post. centerY (pre @ z # post) (Suc (length pre + j)) = centerY (pre @ post) (length pre + j)) \<and>
         (\<forall>ps hs d k p. (k, p) \<in> set ps \<and> k \<noteq> d \<and> hs k = None \<longrightarrow>
            \<lparr>key = k, index = p, height = 0\<rparr> \<in> set (sortedItems ps hs d))"
proof -
  from assms(1) have nn: "\<forall>it \<in> set (pre @ post). 0 \<le> height it" by (simp add: list_all_iff)
  from scanNewPos_zero_height[OF nn assms(2), of y 0 0]
  have scan: "scanNewPos y 0 0 (pre @ z # post) =
           scanNewPos y 0 0 (pre @ post) + (if sum_list (map height pre) \<le> y then 1 else 0)"
    by simp
  have cen: "centerY (pre @ z # post) (Suc (length pre + j)) = centerY (pre @ post) (length pre + j)"
    if "j < length post" for j
    using that assms(2) by (simp add: centerY_def nth_append)
  have mem: "\<lparr>key = k, index = p, height = 0\<rparr> \<in> set (sortedItems ps hs d)"
    if "(k, p) \<in> set ps \<and> k \<noteq> d \<and> hs k = None" for ps hs d k p
    using that by (force simp: sortedItems_def height_or_0_def image_iff)
  from scan cen mem show ?thesis by blast
qed

text \<open>
  C7 as claimed fails. The unmeasured item \<open>b\<close> of slot 1 becomes the swap target of the
  item of slot 0 at offset 0, which without \<open>b\<close> resolves to slot 0; and a drag of the
  unmeasured item \<open>a\<close> computes and commits a swap.
\<close>

theorem zero_height_counterexample:
  "heightsWithoutB ''b'' = None \<and>
   newPosition 3 slots3 heightsWithoutB ''a'' 0 = 1 \<and>
   resolveSwap 3 heightsWithoutB (Some ''a'') 0 slots3 = [(''a'', 1), (''b'', 0), (''c'', 2)] \<and>
   newPosition 2 [(''a'', 0), (''c'', 1)] heightsWithoutB ''a'' 0 = 0 \<and>
   heightsWithoutA ''a'' = None \<and>
   resolveSwap 3 heightsWithoutA (Some ''a'') 100 slots3 = [(''a'', 2), (''b'', 0), (''c'', 1)]"
  by code_simp

theorem zero_height_item_in_scan_witness:
  "list_all (\<lambda>it. 0 \<le> height it)
     ([\<lparr>key = ''a'', index = 0, height = 60\<rparr>] @ [\<lparr>key = ''c'', index = 2, height = 60\<rparr>]) \<and>
   height \<lparr>key = ''b'', index = 1, height = 0\<rparr> = 0 \<and>
   scanNewPos 60 0 0 ([\<lparr>key = ''a'', index = 0, height = 60\<rparr>]
      @ \<lparr>key = ''b'', index = 1, height = 0\<rparr> # [\<lparr>key = ''c'', index = 2, height = 60\<rparr>]) = 2 \<and>
   scanNewPos 60 0 0 ([\<lparr>key = ''a'', index = 0, height = 60\<rparr>] @ [\<lparr>key = ''c'', index = 2, height = 60\<rparr>]) = 1 \<and>
   (0 :: nat) < length [\<lparr>key = ''c'', index = 2, height = 60\<rparr>] \<and>
   centerY ([\<lparr>key = ''a'', index = 0, height = 60\<rparr>]
      @ \<lparr>key = ''b'', index = 1, height = 0\<rparr> # [\<lparr>key = ''c'', index = 2, height = 60\<rparr>]) 2 = 90 \<and>
   (''b'', 1) \<in> set slots3 \<and> ''b'' \<noteq> ''a'' \<and> heightsWithoutB ''b'' = None \<and>
   \<lparr>key = ''b'', index = 1, height = 0\<rparr> \<in> set (sortedItems slots3 heightsWithoutB ''a'')"
proof -
  let ?a = "\<lparr>key = ''a'', index = 0, height = 60\<rparr>"
  let ?b = "\<lparr>key = ''b'', index = 1, height = 0\<rparr>"
  let ?c = "\<lparr>key = ''c'', index = 2, height = 60\<rparr>"
  have h1: "list_all (\<lambda>it. 0 \<le> height it) ([?a] @ [?c])" by simp
  have h2: "height ?b = 0" by simp
  have s: "scanNewPos 60 0 0 ([?a] @ [?c]) = 1" by simp
  have c: "centerY ([?a] @ ?b # [?c]) 2 = 90" by (simp add: centerY_def eval_nat_numeral)
  have l: "(0 :: nat) < length [?c]" by simp
  have m: "(''b'', 1) \<in> set slots3 \<and> ''b'' \<noteq> ''a'' \<and> heightsWithoutB ''b'' = None"
    by (simp add: slots3_def heightsWithoutB_def)
  note t = zero_height_item_in_scan[OF h1 h2, of 60]
  from t s have t1: "scanNewPos 60 0 0 ([?a] @ ?b # [?c]) = 2" by simp
  from t m have t2: "?b \<in> set (sortedItems slots3 heightsWithoutB ''a'')" by blast
  from h1 h2 t1 s l c m t2 show ?thesis by blast
qed

section \<open>The end of a drag\<close>

lemma onEnd_active:
  assumes "draggableItemKey st = Some d" and "d \<noteq> []"
  shows "onEnd props (st, it) =
           ((st\<lparr>autoScrollDirection := Stop\<rparr>, it\<lparr>isDraggingShared := False\<rparr>),
            [StopAutoScroll, SetIsDragging False] @
            (if hasOnDragEnd props then [OnDragEnd (initialIndex it) (obj_get (positions st) d)] else []))"
  using assms by (simp add: onEnd_def)

lemma onEnd_components_active:
  assumes "draggableItemKey st = Some d" and "d \<noteq> []"
  shows "onEnd_components props (st, it) =
           ((st, it\<lparr>isDraggingShared := False\<rparr>),
            [StopAutoScroll, SetIsDragging False] @
            (if hasOnDragEnd props then [OnDragEnd (initialIndex it) (obj_get (positions st) d)] else []))"
  using assms by (simp add: onEnd_components_def)

lemma stopAutoScroll_frame:
  "currentOrderRef (stopAutoScroll st) = currentOrderRef st \<and>
   positions (stopAutoScroll st) = positions st \<and>
   draggableItemKey (stopAutoScroll st) = draggableItemKey st \<and>
   itemHeights (stopAutoScroll st) = itemHeights st \<and>
   scrollY (stopAutoScroll st) = scrollY st"
  by (simp add: stopAutoScroll_def clearInterval_def split: option.split)

lemma startAutoScroll_frame:
  "currentOrderRef (startAutoScroll spd dir st) = currentOrderRef st \<and>
   positions (startAutoScroll spd dir st) = positions st \<and>
   draggableItemKey (startAutoScroll spd dir st) = draggableItemKey st \<and>
   itemHeights (startAutoScroll spd dir st) = itemHeights st \<and>
   scrollY (startAutoScroll spd dir st) = scrollY st"
  by (simp add: startAutoScroll_def setInterval_def clearInterval_def Let_def split: option.split)

lemma stopAutoScroll_timers:
  "scrollIntervalRef (stopAutoScroll st) = None"
  by (simp add: stopAutoScroll_def split: option.split)

text \<open>
  C4, as the code has it. When a drag ends with a truthy dragged key, \<open>onEnd\<close> clears the
  item's own dragging flag (\<open>isDraggingShared\<close>, and \<open>isDragging\<close> once the scheduled
  call has run), requests the auto-scroll stop and hands exactly one
  \<open>(initialIndex, final slot)\<close> pair to the \<open>onDragEnd\<close> callback the list supplies, also
  when the two slots are equal; the position table is left as it is. The shared
  \<open>draggableItemKey\<close>, by which the other items tell that a drag is active, still names
  the item afterwards. Both versions of the handler agree on this.
\<close>

theorem onEnd_effects:
  assumes "draggableItemKey st = Some d" and "d \<noteq> []" and "hasOnDragEnd props"
  shows "snd (onEnd props (st, it)) =
           [StopAutoScroll, SetIsDragging False,
            OnDragEnd (initialIndex it) (obj_get (positions st) d)] \<and>
         \<not> isDraggingShared (snd (fst (onEnd props (st, it)))) \<and>
         autoScrollDirection (fst (fst (onEnd props (st, it)))) = Stop \<and>
         draggableItemKey (fst (fst (onEnd props (st, it)))) = Some d \<and>
         positions (fst (fst (onEnd props (st, it)))) = positions st \<and>
         snd (onEnd_components props (st, it)) = snd (onEnd props (st, it)) \<and>
         \<not> isDraggingShared (snd (fst (onEnd_components props (st, it)))) \<and>
         draggableItemKey (fst (fst (onEnd_components props (st, it)))) = Some d \<and>
         \<not> isDragging (snd (andThenRun undef spd (onEnd props (st, it)))) \<and>
         scrollIntervalRef (fst (andThenRun undef spd (onEnd props (st, it)))) = None \<and>
         draggableItemKey (fst (andThenRun undef spd (onEnd props (st, it)))) = Some d \<and>
         currentOrderRef (fst (andThenRun undef spd (onEnd props (st, it)))) =
           handleDragEnd undef (initialIndex it) (obj_get (positions st) d) (currentOrderRef st)"
  using assms
  by (simp add: onEnd_active onEnd_components_active andThenRun_def
        stopAutoScroll_frame stopAutoScroll_timers)

theorem onEnd_effects_witness:
  "draggableItemKey (listABC\<lparr>draggableItemKey := Some ''a''\<rparr>) = Some ''a'' \<and>
   ''a'' \<noteq> [] \<and> hasOnDragEnd propsA \<and>
   snd (onEnd propsA (listABC\<lparr>draggableItemKey := Some ''a''\<rparr>, renderItem 0))
     = [StopAutoScroll, SetIsDragging False, OnDragEnd 0 (Some 0)] \<and>
   draggableItemKey (fst (fst (onEnd propsA (listABC\<lparr>draggableItemKey := Some ''a''\<rparr>, renderItem 0))))
     = Some ''a''"
proof -
  let ?st = "listABC\<lparr>draggableItemKey := Some ''a''\<rparr>"
  have k: "draggableItemKey ?st = Some ''a''" by simp
  have n: "''a'' \<noteq> []" by simp
  have h: "hasOnDragEnd propsA" by (simp add: propsA_def)
  have i: "initialIndex (renderItem 0) = 0" by (simp add: renderItem_def)
  have p: "obj_get (positions ?st) ''a'' = Some 0" by code_simp
  from onEnd_effects[OF k n h, of "renderItem 0"] k n h i p show ?thesis
    by simp
qed

text \<open>
  C4 as claimed fails: after a completed drag of the item \<open>a\<close>, and after every call the
  handlers scheduled has run, \<open>a\<close> is still the active dragged key.
\<close>

theorem onEnd_keeps_dragged_key:
  "draggableItemKey (fst (completedDrag itemA 8 propsA [100] (listABC, renderItem 0))) = Some ''a'' \<and>
   draggableItemKey (fst (fst (onEnd propsA (dragging itemA 8 propsA [100] (listABC, renderItem 0))))) = Some ''a'' \<and>
   draggableItemKey (fst (fst (onEnd_components propsA (dragging itemA 8 propsA [100] (listABC, renderItem 0))))) = Some ''a''"
  by code_simp

section \<open>The logical order changes at the end of a drag only\<close>

lemma runCall_order:
  "\<not> isOnDragEnd c \<Longrightarrow> currentOrderRef (fst (runCall undef spd c s)) = currentOrderRef (fst s)"
  by (cases c; cases s) (simp_all add: stopAutoScroll_frame startAutoScroll_frame)

lemma runCall_key:
  "draggableItemKey (fst (runCall undef spd c s)) = draggableItemKey (fst s)"
  by (cases c; cases s) (simp_all add: stopAutoScroll_frame startAutoScroll_frame)

lemma runCalls_order:
  "list_all (\<lambda>c. \<not> isOnDragEnd c) cs \<Longrightarrow>
   currentOrderRef (fst (runCalls undef spd cs s)) = currentOrderRef (fst s)"
  by (induction cs arbitrary: s) (simp_all add: runCall_order)

lemma runCalls_key:
  "draggableItemKey (fst (runCalls undef spd cs s)) = draggableItemKey (fst s)"
  by (induction cs arbitrary: s) (simp_all add: runCall_key)

lemma onStart_calls: "list_all (\<lambda>c. \<not> isOnDragEnd c) (snd (onStart props s))"
  by (cases s) (simp add: onStart_def Let_def)

lemma onStart_order: "currentOrderRef (fst (fst (onStart props s))) = currentOrderRef (fst s)"
  by (cases s) (simp add: onStart_def Let_def)

lemma onStart_key: "draggableItemKey (fst (fst (onStart props s))) = Some (itemKey props)"
  by (cases s) (simp add: onStart_def Let_def)

lemma edgeCheck_calls: "list_all (\<lambda>c. \<not> isOnDragEnd c) (snd (edgeCheck st y))"
  by (simp add: edgeCheck_def Let_def)

lemma onUpdate_calls: "list_all (\<lambda>c. \<not> isOnDragEnd c) (snd (onUpdate props ty s))"
  using edgeCheck_calls[of "fst s" "currentAbsoluteY (fst s) (snd s) ty"]
  by (cases s) (simp add: onUpdate_def Let_def case_prod_unfold split: option.split)

lemma onUpdate_order: "currentOrderRef (fst (fst (onUpdate props ty s))) = currentOrderRef (fst s)"
  by (cases s) (simp add: onUpdate_def Let_def case_prod_unfold split: option.split)

lemma onUpdate_key: "draggableItemKey (fst (fst (onUpdate props ty s))) = draggableItemKey (fst s)"
  by (cases s) (simp add: onUpdate_def Let_def case_prod_unfold split: option.split)

lemma onUpdates_order:
  "currentOrderRef (fst (onUpdates undef spd props tys s)) = currentOrderRef (fst s)"
  by (induction tys arbitrary: s)
     (simp_all add: andThenRun_def runCalls_order onUpdate_calls onUpdate_order)

lemma onUpdates_key:
  "draggableItemKey (fst (onUpdates undef spd props tys s)) = draggableItemKey (fst s)"
  by (induction tys arbitrary: s)
     (simp_all add: andThenRun_def runCalls_key onUpdate_key)

lemma dragging_order:
  "currentOrderRef (fst (dragging undef spd props tys s)) = currentOrderRef (fst s)"
  by (simp add: dragging_def onUpdates_order andThenRun_def runCalls_order onStart_calls onStart_order)

lemma dragging_key:
  "draggableItemKey (fst (dragging undef spd props tys s)) = Some (itemKey props)"
  by (simp add: dragging_def onUpdates_key andThenRun_def runCalls_key onStart_key)

text \<open>
  For indices of the list, \<open>handleDragEnd\<close> takes the item out of its origin index and
  puts it in at the destination index of what remains.
\<close>

lemma handleDragEnd_in_range:
  assumes "f < length order" and "t < length order" 
  shows "handleDragEnd undef (int f) (Some (int t)) order =
           take t (without f order) @ order ! f # drop t (without f order)"
proof (cases "f = t")
  case True
  with assms show ?thesis
    by (simp add: handleDragEnd_def without_def id_take_nth_drop[symmetric] take_drop
           min_absorb2 drop_take)
next
  case False
  have len: "length (without f order) = length order - 1"
    using assms(1) by (simp add: without_def)
  have rem: "splice (int f) 1 [] order = ([order ! f], without f order)"
    using assms(1) by (simp add: splice_def without_def Let_def take_Suc_conv_app_nth
         Cons_nth_drop_Suc[symmetric] del: drop_Suc_Cons)
  have ins: "snd (splice (int t) 0 [x] (without f order)) =
             take t (without f order) @ x # drop t (without f order)" for x
    using assms(2) len by (simp add: splice_def Let_def)
  from False rem ins show ?thesis by (simp add: handleDragEnd_def)
qed

lemma runCalls_initialIndex:
  "initialIndex (snd (runCalls undef spd cs s)) = initialIndex (snd s)"
proof (induction cs arbitrary: s)
  case Nil
  show ?case by simp
next
  case (Cons c cs)
  have "initialIndex (snd (runCall undef spd c s)) = initialIndex (snd s)"
    by (cases c; cases s) simp_all
  with Cons.IH[of "runCall undef spd c s"] show ?case by simp
qed

lemma onUpdate_initialIndex:
  "initialIndex (snd (fst (onUpdate props ty s))) = initialIndex (snd s)"
  by (cases s) (simp add: onUpdate_def Let_def case_prod_unfold split: option.split)

lemma onUpdates_initialIndex:
  "initialIndex (snd (onUpdates undef spd props tys s)) = initialIndex (snd s)"
  by (induction tys arbitrary: s)
     (simp_all add: andThenRun_def runCalls_initialIndex onUpdate_initialIndex)

lemma onStart_initialIndex:
  "initialIndex (snd (fst (onStart props s))) =
     (case obj_get (positions (fst s)) (itemKey props) of None \<Rightarrow> itemIndex props | Some p \<Rightarrow> p)"
  by (cases s) (simp add: onStart_def Let_def)

lemma dragging_initialIndex:
  "initialIndex (snd (dragging undef spd props tys s)) =
     (case obj_get (positions (fst s)) (itemKey props) of None \<Rightarrow> itemIndex props | Some p \<Rightarrow> p)"
  by (simp add: dragging_def onUpdates_initialIndex andThenRun_def runCalls_initialIndex
        onStart_initialIndex)

lemma completedDrag_order:
  "getCurrentData (fst (completedDrag undef spd props tys s)) =
     (if itemKey props \<noteq> [] \<and> hasOnDragEnd props
      then handleDragEnd undef
             (initialIndex (snd (dragging undef spd props tys s)))
             (obj_get (positions (fst (dragging undef spd props tys s))) (itemKey props))
             (getCurrentData (fst s))
      else getCurrentData (fst s))"
proof -
  obtain st it where d: "dragging undef spd props tys s = (st, it)"
    by (cases "dragging undef spd props tys s")
  have k: "draggableItemKey st = Some (itemKey props)"
    using dragging_key[of undef spd props tys s] d by simp
  have o: "currentOrderRef st = currentOrderRef (fst s)"
    using dragging_order[of undef spd props tys s] d by simp
  show ?thesis
  proof (cases "itemKey props = []")
    case True
    with k o d show ?thesis
      by (simp add: completedDrag_def onEnd_def andThenRun_def getCurrentData_def)
  next
    case False
    from onEnd_active[OF k False, of props it] d o show ?thesis
      by (simp add: completedDrag_def andThenRun_def getCurrentData_def stopAutoScroll_frame False)
  qed
qed

text \<open>
  C8. A drag whose final slot is the slot it started from leaves the logical order as it
  was: \<open>getCurrentData\<close> returns the same sequence after the drag as before.
\<close>

theorem same_slot_drag_keeps_order:
  "handleDragEnd undef slot (Some slot) order = order \<and>
   (obj_get (positions (fst (dragging undef spd props tys s))) (itemKey props)
      = Some (initialIndex (snd (dragging undef spd props tys s))) \<longrightarrow>
    getCurrentData (fst (completedDrag undef spd props tys s)) = getCurrentData (fst s))"
  by (simp add: completedDrag_order handleDragEnd_def)

theorem same_slot_drag_keeps_order_witness:
  "obj_get (positions (fst (dragging itemA 8 propsA [20] (listABC, renderItem 0)))) (itemKey propsA)
     = Some (initialIndex (snd (dragging itemA 8 propsA [20] (listABC, renderItem 0)))) \<and>
   snd (onEnd propsA (dragging itemA 8 propsA [20] (listABC, renderItem 0)))
     = [StopAutoScroll, SetIsDragging False, OnDragEnd 0 (Some 0)] \<and>
   getCurrentData (fst (completedDrag itemA 8 propsA [20] (listABC, renderItem 0)))
     = [itemA, itemB, itemC]"
proof -
  have h: "obj_get (positions (fst (dragging itemA 8 propsA [20] (listABC, renderItem 0)))) (itemKey propsA)
     = Some (initialIndex (snd (dragging itemA 8 propsA [20] (listABC, renderItem 0))))" by code_simp
  have c: "snd (onEnd propsA (dragging itemA 8 propsA [20] (listABC, renderItem 0)))
     = [StopAutoScroll, SetIsDragging False, OnDragEnd 0 (Some 0)]" by code_simp
  have o: "getCurrentData (fst (listABC, renderItem 0)) = [itemA, itemB, itemC]" by code_simp
  from same_slot_drag_keeps_order[of itemA 0 "[]" 8 propsA "[20]" "(listABC, renderItem 0)"] h c o
  show ?thesis by simp
qed

section \<open>The position table stays a permutation through a whole drag\<close>

lemma runCall_positions:
  "positions (fst (runCall undef spd c s)) = positions (fst s)"
  by (cases c; cases s) (simp_all add: stopAutoScroll_frame startAutoScroll_frame)

lemma runCalls_positions:
  "positions (fst (runCalls undef spd cs s)) = positions (fst s)"
  by (induction cs arbitrary: s) (simp_all add: runCall_positions)

lemma onStart_positions: "positions (fst (fst (onStart props s))) = positions (fst s)"
  by (cases s) (simp add: onStart_def Let_def)

lemma onEnd_positions: "positions (fst (fst (onEnd props s))) = positions (fst s)"
  by (cases s) (simp add: onEnd_def Let_def split: option.split)

lemma onUpdates_perm_table:
  assumes "perm_table (positions (fst s))"
    and "draggedInTable (positions (fst s)) (draggableItemKey (fst s))"
  shows "perm_table (positions (fst (onUpdates undef spd props tys s))) \<and>
         map fst (positions (fst (onUpdates undef spd props tys s))) = map fst (positions (fst s))"
  using assms
proof (induction tys arbitrary: s)
  case Nil
  then show ?case by simp
next
  case (Cons ty tys)
  obtain st it where s: "s = (st, it)" by (cases s)
  let ?s' = "andThenRun undef spd (onUpdate props ty s)"
  have pos: "positions (fst ?s') =
      resolveSwap (listLength props) (itemHeights st) (draggableItemKey st)
        (currentAbsoluteY st it ty) (positions st)"
    unfolding s by (simp add: andThenRun_def runCalls_positions onUpdate_positions)
  have key: "draggableItemKey (fst ?s') = draggableItemKey st"
    unfolding s by (simp add: andThenRun_def runCalls_key onUpdate_key)
  from Cons.prems s have p: "perm_table (positions st)"
    and d: "draggedInTable (positions st) (draggableItemKey st)" by simp_all
  from p have dist: "distinct (map fst (positions st))" by (simp add: perm_table_def)
  have p': "perm_table (positions (fst ?s'))"
    unfolding pos using p d by (rule resolveSwap_perm_table)
  have k': "map fst (positions (fst ?s')) = map fst (positions st)"
    unfolding pos using dist d by (rule resolveSwap_keys)
  have d': "draggedInTable (positions (fst ?s')) (draggableItemKey (fst ?s'))"
    using d by (simp add: draggedInTable_def k' key split: option.splits)
  from Cons.IH[OF p' d'] k' s show ?case by simp
qed

text \<open>
  A whole gesture on an item of the table (\<open>onStart\<close>, any number of \<open>onUpdate\<close> calls,
  \<open>onEnd\<close>, each with the calls it scheduled) takes a position table that is a permutation
  to a permutation over the same keys.
\<close>

lemma completed_drag_keeps_permutation:
  assumes "perm_table (positions (fst s))"
    and "itemKey props \<in> set (map fst (positions (fst s)))"
  shows "perm_table (positions (fst (completedDrag undef spd props tys s))) \<and>
         map fst (positions (fst (completedDrag undef spd props tys s)))
           = map fst (positions (fst s))"
proof -
  let ?s1 = "andThenRun undef spd (onStart props s)"
  have p1: "positions (fst ?s1) = positions (fst s)"
    by (simp add: andThenRun_def runCalls_positions onStart_positions)
  have k1: "draggableItemKey (fst ?s1) = Some (itemKey props)"
    by (simp add: andThenRun_def runCalls_key onStart_key)
  have "perm_table (positions (fst (onUpdates undef spd props tys ?s1))) \<and>
        map fst (positions (fst (onUpdates undef spd props tys ?s1))) = map fst (positions (fst ?s1))"
    using assms by (intro onUpdates_perm_table) (simp_all add: p1 k1 draggedInTable_def)
  then show ?thesis
    by (simp add: completedDrag_def dragging_def andThenRun_def[of _ _ "onEnd _ _"]
          runCalls_positions onEnd_positions p1)
qed

text \<open>
  C1. After any sequence of swap resolutions on a position table that is a permutation of
  \<open>0 .. N-1\<close>, each for a dragged key of the table, the table is a permutation of
  \<open>0 .. N-1\<close> again, over the same keys; one reassignment to any target slot of the table
  keeps it a permutation; and so does a whole gesture of the handlers on an item of the
  table.
\<close>

theorem permutation_invariant:
  assumes "perm_table ps"
    and "list_all (\<lambda>(listLen, hs, dk, y). draggedInTable ps dk) rs"
  shows "perm_table (resolveSwaps rs ps) \<and> map fst (resolveSwaps rs ps) = map fst ps \<and>
         (\<forall>d S T. obj_get ps d = Some S \<and> d \<noteq> [] \<and> 0 \<le> T \<and> T < int (length ps)
            \<longrightarrow> perm_table (modifyPositions d T ps)) \<and>
         (positions (fst s) = ps \<and> itemKey props \<in> set (map fst ps)
            \<longrightarrow> perm_table (positions (fst (completedDrag undef spd props tys s))))"
proof -
  have run: "perm_table (resolveSwaps rs ps) \<and> map fst (resolveSwaps rs ps) = map fst ps"
    using assms
  proof (induction rs arbitrary: ps)
    case Nil
    then show ?case by simp
  next
    case (Cons r rs)
    obtain listLen hs dk y where r: "r = (listLen, hs, dk, y)" by (cases r)
    let ?ps' = "resolveSwap listLen hs dk y ps"
    from Cons.prems r have here: "draggedInTable ps dk" by simp
    from Cons.prems(1) have dist: "distinct (map fst ps)" by (simp add: perm_table_def)
    have p': "perm_table ?ps'" using Cons.prems(1) here by (rule resolveSwap_perm_table)
    have k': "map fst ?ps' = map fst ps" using dist here by (rule resolveSwap_keys)
    have "draggedInTable ?ps' = draggedInTable ps"
      by (rule ext) (simp add: draggedInTable_def k' split: option.split)
    with Cons.prems(2) r have "list_all (\<lambda>(listLen, hs, dk, y). draggedInTable ?ps' dk) rs"
      by simp
    with Cons.IH[OF p'] k' r show ?case by simp
  qed
  moreover have "perm_table (modifyPositions d T ps)"
    if "obj_get ps d = Some S \<and> d \<noteq> [] \<and> 0 \<le> T \<and> T < int (length ps)" for d S T
    using assms(1) that by (intro modifyPositions_perm_table[of ps d S]) simp_all
  moreover have "perm_table (positions (fst (completedDrag undef spd props tys s)))"
    if "positions (fst s) = ps \<and> itemKey props \<in> set (map fst ps)"
    using assms(1) that completed_drag_keeps_permutation[of s props undef spd tys] by simp
  ultimately show ?thesis by blast
qed

theorem permutation_invariant_witness:
  "perm_table slots3 \<and>
   list_all (\<lambda>(listLen, hs, dk, y). draggedInTable slots3 dk)
     [(3 :: int, all60, Some ''a'', 100 :: real), (3, all60, Some ''a'', 40)] \<and>
   perm_table (resolveSwaps [(3, all60, Some ''a'', 100), (3, all60, Some ''a'', 40)] slots3) \<and>
   resolveSwaps [(3, all60, Some ''a'', 100), (3, all60, Some ''a'', 40)] slots3
     = [(''a'', 1), (''b'', 0), (''c'', 2)] \<and>
   perm_table (modifyPositions ''b'' 2 slots3) \<and>
   positions (fst (listABC, renderItem 0)) = slots3 \<and>
   itemKey propsA \<in> set (map fst slots3) \<and>
   perm_table (positions (fst (completedDrag itemA 8 propsA [100, 40] (listABC, renderItem 0)))) \<and>
   positions (fst (completedDrag itemA 8 propsA [100, 40] (listABC, renderItem 0)))
     = [(''a'', 1), (''b'', 0), (''c'', 2)]"
proof -
  let ?rs = "[(3::int, all60, Some ''a'', 100::real), (3, all60, Some ''a'', 40)]"
  have h1: "perm_table slots3" by code_simp
  have h2: "list_all (\<lambda>(listLen, hs, dk, y). draggedInTable slots3 dk) ?rs"
    by (simp add: draggedInTable_def slots3_def)
  have r: "resolveSwaps ?rs slots3 = [(''a'', 1), (''b'', 0), (''c'', 2)]"
    by code_simp
  have g: "obj_get slots3 ''b'' = Some 1 \<and> ''b'' \<noteq> [] \<and> (0::int) \<le> 2 \<and> 2 < int (length slots3)"
    by (simp add: obj_get_def slots3_def)
  have k: "positions (fst (listABC, renderItem 0)) = slots3 \<and> itemKey propsA \<in> set (map fst slots3)"
    by code_simp
  have c: "positions (fst (completedDrag itemA 8 propsA [100, 40] (listABC, renderItem 0)))
     = [(''a'', 1), (''b'', 0), (''c'', 2)]" by code_simp
  from permutation_invariant[OF h1 h2, of "(listABC, renderItem 0)" propsA itemA 8 "[100, 40]"]
    g h1 h2 r k c
  show ?thesis by blast
qed

section \<open>The logical order follows the position table\<close>

lemma agrees_length: "agrees order ps \<Longrightarrow> length order = length ps"
  by (auto simp: agrees_def dest: arg_cong[where f = length])

lemma agrees_nth:
  "agrees order ps \<Longrightarrow> i < length ps \<Longrightarrow> obj_get ps (item_id (order ! i)) = Some (int i)"
proof -
  assume a: "agrees order ps" and i: "i < length ps"
  from a have l: "length order = length ps" by (rule agrees_length)
  from a have "map (\<lambda>item. obj_get ps (item_id item)) order ! i
      = map (\<lambda>i. Some (int i)) [0 ..< length ps] ! i" by (simp add: agrees_def)
  with i l show ?thesis by simp
qed

lemma agreesI:
  assumes "length order = length ps"
    and "\<And>i. i < length ps \<Longrightarrow> obj_get ps (item_id (order ! i)) = Some (int i)"
  shows "agrees order ps"
  unfolding agrees_def using assms by (intro nth_equalityI) simp_all

lemma obj_get_map_entries:
  "obj_get (map (\<lambda>(k, p). (k, f k p)) ps) k = map_option (f k) (obj_get ps k)"
  by (induction ps) (auto simp: obj_get_def)

lemma modifyPositions_lookup:
  assumes "distinct (map fst ps)" "obj_get ps d = Some S" "d \<noteq> []"
  shows "obj_get (modifyPositions d T ps) k =
           map_option (\<lambda>p. if k = d then T else shiftNeighbour T S p) (obj_get ps k)"
  unfolding modifyPositions_map[OF assms]
  using obj_get_map_entries[of "\<lambda>k p. if k = d then T else shiftNeighbour T S p" ps k] .

lemma slot_key_unique:
  assumes "distinct (map snd ps)" "obj_get ps k = Some p" "obj_get ps d = Some p"
  shows "k = d"
proof -
  from assms(2,3) have "(k, p) \<in> set ps" "(d, p) \<in> set ps" by (auto dest: obj_get_mem)
  moreover from assms(1) have "inj_on snd (set ps)" by (simp add: distinct_map)
  ultimately show ?thesis using inj_onD[of snd "set ps" "(k, p)" "(d, p)"] by simp
qed

lemma nth_without:
  "j < length xs - 1 \<Longrightarrow> without f xs ! j = xs ! (if j < f then j else Suc j)"
  by (auto simp: without_def nth_append min_def)

lemma nth_inserted:
  assumes "t \<le> length W"
  shows "(take t W @ x # drop t W) ! i = (if i < t then W ! i else if i = t then x else W ! (i - 1))"
proof -
  have l: "length (take t W) = t" using assms by simp
  show ?thesis
  proof (cases "i < t")
    case True
    with l show ?thesis by (simp add: nth_append)
  next
    case False
    show ?thesis
    proof (cases "i = t")
      case True
      with l show ?thesis by (simp add: nth_append)
    next
      case ne: False
      with False obtain m where m: "i = t + Suc m" by (metis less_imp_add_positive not_less_iff_gr_or_eq add_Suc_right gr0_implies_Suc)
      then have "(take t W @ x # drop t W) ! i = drop t W ! m"
        using l by (simp add: nth_append)
      also have "\<dots> = W ! (t + m)" using assms by (rule nth_drop)
      finally show ?thesis using m by simp
    qed
  qed
qed

lemma handleDragEnd_moved:
  assumes "f < length order" "t < length order"
  shows "length (handleDragEnd undef (int f) (Some (int t)) order) = length order"
    and "handleDragEnd undef (int f) (Some (int t)) order ! t = order ! f"
    and "without t (handleDragEnd undef (int f) (Some (int t)) order) = without f order"
proof -
  from assms have len: "length (without f order) = length order - 1"
    by (simp add: without_def)
  from assms len have t: "t \<le> length (without f order)" by linarith
  have eq: "handleDragEnd undef (int f) (Some (int t)) order
      = take t (without f order) @ order ! f # drop t (without f order)"
    using assms by (rule handleDragEnd_in_range)
  have l: "length (take t (without f order)) = t" using t by simp
  show "length (handleDragEnd undef (int f) (Some (int t)) order) = length order"
    unfolding eq using assms len t by (simp; linarith)
  show "handleDragEnd undef (int f) (Some (int t)) order ! t = order ! f"
    unfolding eq using l by (simp add: nth_append)
  show "without t (handleDragEnd undef (int f) (Some (int t)) order) = without f order"
    unfolding eq using l t by (simp add: without_def[of t])
qed

lemma handleDragEnd_twice:
  assumes "f < length order" "t < length order" "t' < length order"
  shows "handleDragEnd undef (int t) (Some (int t')) (handleDragEnd undef (int f) (Some (int t)) order)
         = handleDragEnd undef (int f) (Some (int t')) order"
proof -
  let ?o1 = "handleDragEnd undef (int f) (Some (int t)) order"
  note m = handleDragEnd_moved[OF assms(1,2), of undef]
  have "handleDragEnd undef (int t) (Some (int t')) ?o1
        = take t' (without t ?o1) @ ?o1 ! t # drop t' (without t ?o1)"
    using assms(2,3) m(1) by (intro handleDragEnd_in_range) simp_all
  also have "\<dots> = take t' (without f order) @ order ! f # drop t' (without f order)"
    by (simp only: m(2,3))
  also have "\<dots> = handleDragEnd undef (int f) (Some (int t')) order"
    using assms(1,3) by (rule handleDragEnd_in_range[symmetric])
  finally show ?thesis .
qed

lemma handleDragEnd_nth:
  assumes "f < length order" "t < length order" "i < length order"
  shows "handleDragEnd undef (int f) (Some (int t)) order ! i = order ! cameFrom f t i"
    and "cameFrom f t i < length order"
    and "(if cameFrom f t i = f then int t
          else shiftNeighbour (int t) (int f) (int (cameFrom f t i))) = int i"
proof -
  let ?W = "without f order"
  from assms have len: "length ?W = length order - 1" by (simp add: without_def)
  from assms len have t: "t \<le> length ?W" by linarith
  have eq: "handleDragEnd undef (int f) (Some (int t)) order = take t ?W @ order ! f # drop t ?W"
    using assms(1,2) by (rule handleDragEnd_in_range)
  show "cameFrom f t i < length order"
    using assms by (auto simp: cameFrom_def)
  show "(if cameFrom f t i = f then int t
          else shiftNeighbour (int t) (int f) (int (cameFrom f t i))) = int i"
    by (auto simp: cameFrom_def shiftNeighbour_def)
  show "handleDragEnd undef (int f) (Some (int t)) order ! i = order ! cameFrom f t i"
  proof (cases "i = t")
    case True
    then show ?thesis unfolding eq nth_inserted[OF t] by (simp add: cameFrom_def)
  next
    case False
    show ?thesis
    proof (cases "i < t")
      case True
      with t len have "i < length order - 1" by linarith
      from nth_without[OF this, of f] True False show ?thesis
        unfolding eq nth_inserted[OF t] by (simp add: cameFrom_def)
    next
      case ge: False
      with False assms(3) have "i - 1 < length order - 1" by linarith
      from nth_without[OF this, of f] ge False show ?thesis
        unfolding eq nth_inserted[OF t] by (auto simp: cameFrom_def)
    qed
  qed
qed

lemma agrees_step:
  assumes a: "agrees order ps" and p: "perm_table ps" and S: "obj_get ps d = Some (int f)"
    and d: "d \<noteq> []" and t: "t < length ps"
  shows "agrees (handleDragEnd undef (int f) (Some (int t)) order) (modifyPositions d (int t) ps)"
proof (rule agreesI)
  from a have lo: "length order = length ps" by (rule agrees_length)
  from p have dk: "distinct (map fst ps)" and ds: "distinct (map snd ps)"
    and range: "set (map snd ps) = {0 ..< int (length ps)}" by (simp_all add: perm_table_def)
  from S have "(d, int f) \<in> set ps" by (rule obj_get_mem)
  then have "int f \<in> set (map snd ps)" by force
  with range have f: "f < length ps" by auto
  have keys: "map fst (modifyPositions d (int t) ps) = map fst ps"
    using dk S d by (rule modifyPositions_keys)
  have lp: "length (modifyPositions d (int t) ps) = length ps"
    using arg_cong[OF keys, of length] by simp
  show "length (handleDragEnd undef (int f) (Some (int t)) order)
        = length (modifyPositions d (int t) ps)"
    using handleDragEnd_moved(1)[of f order t undef] f t lo lp by simp
  fix i assume "i < length (modifyPositions d (int t) ps)"
  then have i: "i < length order" using lp lo by simp
  let ?j = "cameFrom f t i"
  let ?k = "item_id (order ! ?j)"
  from f t lo have fo: "f < length order" and to: "t < length order" by simp_all
  note n = handleDragEnd_nth[OF fo to i]
  from n(2) lo have old: "obj_get ps ?k = Some (int ?j)" using a by (intro agrees_nth) simp_all
  have same: "(?k = d) = (?j = f)"
  proof
    assume "?k = d"
    with old S show "?j = f" by simp
  next
    assume "?j = f"
    with old S ds show "?k = d" by (intro slot_key_unique[of ps ?k "int f" d]) simp_all
  qed
  have "obj_get (modifyPositions d (int t) ps) ?k
        = Some (if ?k = d then int t else shiftNeighbour (int t) (int f) (int ?j))"
    unfolding modifyPositions_lookup[OF dk S d] old by simp
  also have "\<dots> = Some (int i)" unfolding same using n(3) by simp
  finally show "obj_get (modifyPositions d (int t) ps)
      (item_id (handleDragEnd undef (int f) (Some (int t)) order ! i)) = Some (int i)"
    unfolding n(1) .
qed

lemma dragInv_update:
  assumes "dragInv undef d f order0 s" "d \<noteq> []"
  shows "dragInv undef d f order0 (andThenRun undef spd (onUpdate props ty s))"
proof -
  obtain st it where s: "s = (st, it)" by (cases s)
  let ?ps = "positions st"
  let ?s' = "andThenRun undef spd (onUpdate props ty s)"
  from assms(1) s have p: "perm_table ?ps" and key: "draggableItemKey st = Some d"
    and f: "f < length order0" and len: "length order0 = length ?ps"
    by (simp_all add: dragInv_def)
  from assms(1) s obtain t where t: "obj_get ?ps d = Some (int t)"
    and a: "agrees (handleDragEnd undef (int f) (Some (int t)) order0) ?ps"
    by (auto simp: dragInv_def split: option.splits elim: nonneg_int_cases)
  from p have dk: "distinct (map fst ?ps)" and range: "set (map snd ?ps) = {0 ..< int (length ?ps)}"
    by (simp_all add: perm_table_def)
  from t have "(d, int t) \<in> set ?ps" by (rule obj_get_mem)
  then have "int t \<in> set (map snd ?ps)" by force
  with range have tN: "t < length ?ps" by auto
  have pos: "positions (fst ?s') =
      resolveSwap (listLength props) (itemHeights st) (Some d) (currentAbsoluteY st it ty) ?ps"
    unfolding s by (simp add: andThenRun_def runCalls_positions onUpdate_positions key)
  have key': "draggableItemKey (fst ?s') = Some d"
    unfolding s by (simp add: andThenRun_def runCalls_key onUpdate_key key)
  let ?np = "newPosition (listLength props) ?ps (itemHeights st) d (currentAbsoluteY st it ty)"
  show ?thesis
  proof (cases "itemHeights st d = Some 0 \<or> Some ?np = obj_get ?ps d")
    case True
    then have "positions (fst ?s') = ?ps"
      unfolding pos by (auto simp: resolveSwap_def Let_def)
    with p key' f len t a show ?thesis by (simp add: dragInv_def)
  next
    case False
    from newPosition_range[OF dk t, of "listLength props" "itemHeights st" "currentAbsoluteY st it ty"]
    obtain t' where np: "?np = int t'" and t'N: "t' < length ?ps"
      by (metis nonneg_int_cases of_nat_less_iff)
    from False assms(2) have pos': "positions (fst ?s') = modifyPositions d (int t') ?ps"
      unfolding pos by (simp add: resolveSwap_def Let_def np)
    have p': "perm_table (modifyPositions d (int t') ?ps)"
      using p t assms(2) t'N by (intro modifyPositions_perm_table[of _ _ "int t"]) simp_all
    have keys: "map fst (modifyPositions d (int t') ?ps) = map fst ?ps"
      using dk t assms(2) by (rule modifyPositions_keys)
    have len': "length order0 = length (modifyPositions d (int t') ?ps)"
      using arg_cong[OF keys, of length] len by simp
    have look: "obj_get (modifyPositions d (int t') ?ps) d = Some (int t')"
      unfolding modifyPositions_lookup[OF dk t assms(2)] t by simp
    have "agrees (handleDragEnd undef (int t) (Some (int t'))
              (handleDragEnd undef (int f) (Some (int t)) order0))
            (modifyPositions d (int t') ?ps)"
      using a p t assms(2) t'N by (rule agrees_step)
    moreover have "handleDragEnd undef (int t) (Some (int t'))
              (handleDragEnd undef (int f) (Some (int t)) order0)
          = handleDragEnd undef (int f) (Some (int t')) order0"
      using f tN t'N len by (intro handleDragEnd_twice) simp_all
    ultimately have "agrees (handleDragEnd undef (int f) (Some (int t')) order0)
            (modifyPositions d (int t') ?ps)" by simp
    with p' key' f len' look show ?thesis by (simp add: dragInv_def pos')
  qed
qed

lemma dragInv_updates:
  assumes "dragInv undef d f order0 s" "d \<noteq> []"
  shows "dragInv undef d f order0 (onUpdates undef spd props tys s)"
  using assms(1)
proof (induction tys arbitrary: s)
  case Nil
  then show ?case by simp
next
  case (Cons ty tys)
  from dragInv_update[OF Cons.prems assms(2), of spd props ty] Cons.IH show ?case by simp
qed

lemma completedDrag_positions:
  "positions (fst (completedDrag undef spd props tys s))
     = positions (fst (dragging undef spd props tys s))"
  by (simp add: completedDrag_def andThenRun_def runCalls_positions onEnd_positions)

lemma completedDrag_agrees:
  assumes "agrees (getCurrentData (fst s)) (positions (fst s))"
    and "perm_table (positions (fst s))"
    and "itemKey props \<in> set (map fst (positions (fst s)))"
    and "itemKey props \<noteq> []" and "hasOnDragEnd props"
  shows "agrees (getCurrentData (fst (completedDrag undef spd props tys s)))
           (positions (fst (completedDrag undef spd props tys s)))"
proof -
  let ?d = "itemKey props"
  let ?ps = "positions (fst s)"
  let ?order0 = "currentOrderRef (fst s)"
  let ?s1 = "andThenRun undef spd (onStart props s)"
  let ?sd = "dragging undef spd props tys s"
  from assms(3) obtain S where S: "obj_get ?ps ?d = Some S" by (rule obj_get_of_key)
  from assms(2) have range: "set (map snd ?ps) = {0 ..< int (length ?ps)}"
    by (simp add: perm_table_def)
  from S have "(?d, S) \<in> set ?ps" by (rule obj_get_mem)
  then have "S \<in> set (map snd ?ps)" by force
  with range obtain f where f: "S = int f" "f < length ?ps"
    by (metis atLeastLessThan_iff nonneg_int_cases of_nat_less_iff)
  from assms(1) have len: "length ?order0 = length ?ps"
    by (auto simp: getCurrentData_def dest: agrees_length)
  have p1: "positions (fst ?s1) = ?ps"
    by (simp add: andThenRun_def runCalls_positions onStart_positions)
  have k1: "draggableItemKey (fst ?s1) = Some ?d"
    by (simp add: andThenRun_def runCalls_key onStart_key)
  have "handleDragEnd undef (int f) (Some (int f)) ?order0 = ?order0"
    by (simp add: handleDragEnd_def)
  with assms(1,2) S f len have "dragInv undef ?d f ?order0 ?s1"
    by (simp add: dragInv_def p1 k1 getCurrentData_def)
  then have inv: "dragInv undef ?d f ?order0 ?sd"
    unfolding dragging_def using assms(4) by (rule dragInv_updates)
  then obtain p where p: "obj_get (positions (fst ?sd)) ?d = Some p"
    and a: "agrees (handleDragEnd undef (int f) (Some p) ?order0) (positions (fst ?sd))"
    by (auto simp: dragInv_def split: option.splits)
  have "getCurrentData (fst (completedDrag undef spd props tys s))
        = handleDragEnd undef (int f) (Some p) ?order0"
    using assms(4,5) S f p
    by (simp add: completedDrag_order[unfolded getCurrentData_def] dragging_initialIndex
          getCurrentData_def)
  with a show ?thesis by (simp add: completedDrag_positions)
qed

text \<open>
  C2. For the order \<open>[a, b, c]\<close> with \<open>a\<close> in slot 0, a drag that ends with \<open>a\<close> in slot 2
  emits \<open>onDragEnd(0, 2)\<close> and \<open>getCurrentData\<close> then returns \<open>[b, c, a]\<close>. In general the
  order is not touched while the drag goes on; after a completed drag it is the previous
  order after one call of \<open>handleDragEnd\<close> with the slot the item started from and the
  slot it ended in; and for indices of the list that call takes the item out of its
  origin index and puts it in at its destination index, the other items keeping their
  order. When the order agrees with the position table before the drag (the item at index
  \<open>i\<close> holds slot \<open>i\<close>), the item taken out is the dragged one and the order agrees with the
  table after the drag as well.
\<close>

theorem completed_drag_reorders:
  "getCurrentData listABC = [itemA, itemB, itemC] \<and>
   snd (onEnd propsA (dragging itemA 8 propsA [100] (listABC, renderItem 0)))
     = [StopAutoScroll, SetIsDragging False, OnDragEnd 0 (Some 2)] \<and>
   getCurrentData (fst (completedDrag itemA 8 propsA [100] (listABC, renderItem 0)))
     = [itemB, itemC, itemA] \<and>
   getCurrentData (fst (dragging undef spd props tys s)) = getCurrentData (fst s) \<and>
   (itemKey props \<noteq> [] \<and> hasOnDragEnd props \<longrightarrow>
      getCurrentData (fst (completedDrag undef spd props tys s)) =
        handleDragEnd undef
          (case obj_get (positions (fst s)) (itemKey props) of
             None \<Rightarrow> itemIndex props | Some p \<Rightarrow> p)
          (obj_get (positions (fst (dragging undef spd props tys s))) (itemKey props))
          (getCurrentData (fst s))) \<and>
   (f < length order \<and> t < length order \<longrightarrow>
      handleDragEnd undef (int f) (Some (int t)) order
        = take t (without f order) @ order ! f # drop t (without f order) \<and>
      length (handleDragEnd undef (int f) (Some (int t)) order) = length order \<and>
      handleDragEnd undef (int f) (Some (int t)) order ! t = order ! f \<and>
      without t (handleDragEnd undef (int f) (Some (int t)) order) = without f order) \<and>
   (agrees (getCurrentData (fst s)) (positions (fst s)) \<and> perm_table (positions (fst s)) \<and>
    itemKey props \<in> set (map fst (positions (fst s))) \<and> itemKey props \<noteq> [] \<and>
    hasOnDragEnd props \<longrightarrow>
      agrees (getCurrentData (fst (completedDrag undef spd props tys s)))
        (positions (fst (completedDrag undef spd props tys s))))"
proof -
  have c1: "getCurrentData listABC = [itemA, itemB, itemC]" by code_simp
  have c2: "snd (onEnd propsA (dragging itemA 8 propsA [100] (listABC, renderItem 0)))
     = [StopAutoScroll, SetIsDragging False, OnDragEnd 0 (Some 2)]" by code_simp
  have c3: "getCurrentData (fst (completedDrag itemA 8 propsA [100] (listABC, renderItem 0)))
     = [itemB, itemC, itemA]" by code_simp
  have g1: "getCurrentData (fst (dragging undef spd props tys s)) = getCurrentData (fst s)"
    by (simp add: getCurrentData_def dragging_order)
  have g2: "getCurrentData (fst (completedDrag undef spd props tys s)) =
        handleDragEnd undef
          (case obj_get (positions (fst s)) (itemKey props) of
             None \<Rightarrow> itemIndex props | Some p \<Rightarrow> p)
          (obj_get (positions (fst (dragging undef spd props tys s))) (itemKey props))
          (getCurrentData (fst s))"
    if "itemKey props \<noteq> [] \<and> hasOnDragEnd props"
    using that by (simp add: completedDrag_order dragging_initialIndex)
  have g3: "handleDragEnd undef (int f) (Some (int t)) order
        = take t (without f order) @ order ! f # drop t (without f order) \<and>
      length (handleDragEnd undef (int f) (Some (int t)) order) = length order \<and>
      handleDragEnd undef (int f) (Some (int t)) order ! t = order ! f \<and>
      without t (handleDragEnd undef (int f) (Some (int t)) order) = without f order"
    if ft: "f < length order \<and> t < length order"
  proof -
    from ft have len: "length (without f order) = length order - 1"
      by (simp add: without_def)
    from ft len have t: "t \<le> length (without f order)" by linarith
    have eq: "handleDragEnd undef (int f) (Some (int t)) order
        = take t (without f order) @ order ! f # drop t (without f order)"
      using ft by (intro handleDragEnd_in_range) simp_all
    have l: "length (take t (without f order)) = t" using t by simp
    have "length (handleDragEnd undef (int f) (Some (int t)) order) = length order"
      unfolding eq using ft len t by (simp, linarith)
    moreover have "handleDragEnd undef (int f) (Some (int t)) order ! t = order ! f"
      unfolding eq using l by (simp add: nth_append)
    moreover have "without t (handleDragEnd undef (int f) (Some (int t)) order) = without f order"
      unfolding eq using l t by (simp add: without_def[of t])
    ultimately show ?thesis using eq by blast
  qed
  have g4: "agrees (getCurrentData (fst (completedDrag undef spd props tys s)))
        (positions (fst (completedDrag undef spd props tys s)))"
    if "agrees (getCurrentData (fst s)) (positions (fst s)) \<and> perm_table (positions (fst s)) \<and>
        itemKey props \<in> set (map fst (positions (fst s))) \<and> itemKey props \<noteq> [] \<and>
        hasOnDragEnd props"
    using that by (intro completedDrag_agrees) simp_all
  from c1 c2 c3 g1 g2 g3 g4 show ?thesis by blast
qed

theorem completed_drag_reorders_witness:
  "itemKey propsA \<noteq> [] \<and> hasOnDragEnd propsA \<and>
   obj_get (positions (fst (dragging itemA 8 propsA [100] (listABC, renderItem 0)))) (itemKey propsA) = Some 2 \<and>
   getCurrentData (fst (completedDrag itemA 8 propsA [100] (listABC, renderItem 0)))
     = handleDragEnd itemA 0 (Some 2) [itemA, itemB, itemC] \<and>
   (0 :: nat) < length [itemA, itemB, itemC] \<and> (2 :: nat) < length [itemA, itemB, itemC] \<and>
   handleDragEnd itemA (int 0) (Some (int 2)) [itemA, itemB, itemC] = [itemB, itemC, itemA] \<and>
   agrees (getCurrentData (fst (listABC, renderItem 0))) (positions (fst (listABC, renderItem 0))) \<and>
   perm_table (positions (fst (listABC, renderItem 0))) \<and>
   itemKey propsA \<in> set (map fst (positions (fst (listABC, renderItem 0)))) \<and>
   agrees (getCurrentData (fst (completedDrag itemA 8 propsA [100] (listABC, renderItem 0))))
     (positions (fst (completedDrag itemA 8 propsA [100] (listABC, renderItem 0))))"
proof -
  have w1: "agrees (getCurrentData (fst (listABC, renderItem 0))) (positions (fst (listABC, renderItem 0)))"
    by code_simp
  have w2: "perm_table (positions (fst (listABC, renderItem 0)))" by code_simp
  have w3: "itemKey propsA \<in> set (map fst (positions (fst (listABC, renderItem 0))))" by code_simp
  have h: "itemKey propsA \<noteq> [] \<and> hasOnDragEnd propsA" by (simp add: propsA_def)
  have p0: "obj_get (positions (fst (listABC, renderItem 0))) (itemKey propsA) = Some 0" by code_simp
  have p2: "obj_get (positions (fst (dragging itemA 8 propsA [100] (listABC, renderItem 0)))) (itemKey propsA) = Some 2"
    by code_simp
  have o: "getCurrentData (fst (listABC, renderItem 0)) = [itemA, itemB, itemC]" by code_simp
  have r: "(0 :: nat) < length [itemA, itemB, itemC] \<and> (2 :: nat) < length [itemA, itemB, itemC]" by simp
  note t = completed_drag_reorders[of itemA 8 propsA "[100]" "(listABC, renderItem 0)" 0 "[itemA, itemB, itemC]" 2]
  from t h have "getCurrentData (fst (completedDrag itemA 8 propsA [100] (listABC, renderItem 0))) =
        handleDragEnd itemA
          (case obj_get (positions (fst (listABC, renderItem 0))) (itemKey propsA) of
             None \<Rightarrow> itemIndex propsA | Some p \<Rightarrow> p)
          (obj_get (positions (fst (dragging itemA 8 propsA [100] (listABC, renderItem 0)))) (itemKey propsA))
          (getCurrentData (fst (listABC, renderItem 0)))" by blast
  then have a: "getCurrentData (fst (completedDrag itemA 8 propsA [100] (listABC, renderItem 0)))
     = handleDragEnd itemA 0 (Some 2) [itemA, itemB, itemC]"
    unfolding p0 p2 o by simp
  from t r have "handleDragEnd itemA (int 0) (Some (int 2)) [itemA, itemB, itemC]
      = take 2 (without 0 [itemA, itemB, itemC]) @ [itemA, itemB, itemC] ! 0
          # drop 2 (without 0 [itemA, itemB, itemC])" by blast
  moreover have "take 2 (without 0 [itemA, itemB, itemC]) @ [itemA, itemB, itemC] ! 0
          # drop 2 (without 0 [itemA, itemB, itemC]) = [itemB, itemC, itemA]"
    by (simp add: without_def)
  ultimately have b: "handleDragEnd itemA (int 0) (Some (int 2)) [itemA, itemB, itemC]
      = [itemB, itemC, itemA]" by simp
  from t w1 w2 w3 h have w4: "agrees (getCurrentData (fst (completedDrag itemA 8 propsA [100] (listABC, renderItem 0))))
     (positions (fst (completedDrag itemA 8 propsA [100] (listABC, renderItem 0))))" by blast
  from h p2 a r b w1 w2 w3 w4 show ?thesis by blast
qed

section \<open>The position table is derived from the data\<close>

lemma obj_set_new:
  "k \<notin> set (map fst m) \<Longrightarrow> obj_set m k v = m @ [(k, v)]"
  by (induction m) auto

lemma forEachIndex_distinct:
  "distinct (map item_id data) \<Longrightarrow> set (map item_id data) \<inter> set (map fst m) = {} \<Longrightarrow>
   forEachIndex m i data = m @ zip (map item_id data) (map (\<lambda>j. i + int j) [0 ..< length data])"
proof (induction data arbitrary: m i)
  case Nil
  show ?case by simp
next
  case (Cons item rest)
  from Cons.prems have new: "item_id item \<notin> set (map fst m)" by auto
  have step: "obj_set m (item_id item) i = m @ [(item_id item, i)]"
    using new by (rule obj_set_new)
  from Cons.prems have d: "distinct (map item_id rest)"
    and disj: "set (map item_id rest) \<inter> set (map fst (m @ [(item_id item, i)])) = {}"
    by auto
  have shift: "map (\<lambda>j. i + int j) [0 ..< length (item # rest)]
        = i # map (\<lambda>j. (i + 1) + int j) [0 ..< length rest]"
    by (simp add: upt_conv_Cons map_Suc_upt[symmetric] del: upt_Suc)
  show ?case
    unfolding shift using Cons.IH[OF d disj, of "i + 1"] step by simp
qed

lemma perm_table_zip:
  assumes "distinct ks"
  shows "perm_table (zip ks (map int [0 ..< length ks]))"
proof -
  let ?ps = "zip ks (map int [0 ..< length ks])"
  have f: "map fst ?ps = ks" by simp
  have s: "map snd ?ps = map int [0 ..< length ks]" by simp
  have l: "length ?ps = length ks" by simp
  have "distinct (map int [0 ..< length ks])" by (simp add: distinct_map)
  moreover have "set (map int [0 ..< length ks]) = {0 ..< int (length ks)}"
    by (simp add: image_int_atLeastLessThan)
  ultimately show ?thesis
    unfolding perm_table_def f s l using assms by simp
qed

text \<open>
  C9. The effect on the data sets the logical order to the data and derives the position
  table from the data alone, so running it twice with the same sequence gives the state
  the first run gave. For distinct identities the table has the identities of the data as
  its keys, maps each identity to its index in the sequence, and is a permutation.
\<close>

theorem data_effect_idempotent:
  "dataEffect data (dataEffect data st) = dataEffect data st \<and>
   getCurrentData (dataEffect data st) = data \<and>
   (distinct (map item_id data) \<longrightarrow>
      perm_table (positions (dataEffect data st)) \<and>
      set (map fst (positions (dataEffect data st))) = set (map item_id data) \<and>
      (\<forall>i < length data. obj_get (positions (dataEffect data st)) (item_id (data ! i)) = Some (int i)))"
proof -
  have a: "dataEffect data (dataEffect data st) = dataEffect data st"
    by (simp add: dataEffect_def)
  have b: "getCurrentData (dataEffect data st) = data"
    by (simp add: dataEffect_def getCurrentData_def)
  have c: "perm_table (positions (dataEffect data st)) \<and>
      set (map fst (positions (dataEffect data st))) = set (map item_id data) \<and>
      (\<forall>i < length data. obj_get (positions (dataEffect data st)) (item_id (data ! i)) = Some (int i))"
    if d: "distinct (map item_id data)"
  proof -
    have p: "positions (dataEffect data st) = zip (map item_id data) (map int [0 ..< length data])"
      using forEachIndex_distinct[OF d, of "[]" 0] by (simp add: dataEffect_def)
    have q: "perm_table (positions (dataEffect data st))"
      unfolding p using perm_table_zip[of "map item_id data"] d by simp
    have r: "obj_get (positions (dataEffect data st)) (item_id (data ! i)) = Some (int i)"
      if i: "i < length data" for i
    proof -
      have "(item_id (data ! i), int i) \<in> set (zip (map item_id data) (map int [0 ..< length data]))"
        using i by (force simp: set_zip)
      moreover have "distinct (map fst (zip (map item_id data) (map int [0 ..< length data])))"
        using d by simp
      ultimately show ?thesis unfolding p obj_get_def by (rule map_of_is_SomeI[rotated])
    qed
    have k: "set (map fst (positions (dataEffect data st))) = set (map item_id data)"
      unfolding p by simp
    from q k r show ?thesis by blast
  qed
  from a b c show ?thesis by blast
qed

theorem data_effect_idempotent_witness:
  "distinct (map item_id [itemA, itemB, itemC]) \<and>
   perm_table (positions (dataEffect [itemA, itemB, itemC] listABC)) \<and>
   (1 :: nat) < length [itemA, itemB, itemC] \<and>
   obj_get (positions (dataEffect [itemA, itemB, itemC] listABC)) ''b'' = Some 1 \<and>
   dataEffect [itemA, itemB, itemC] (dataEffect [itemA, itemB, itemC] listABC)
     = dataEffect [itemA, itemB, itemC] listABC"
proof -
  have d: "distinct (map item_id [itemA, itemB, itemC])"
    by (simp add: itemA_def itemB_def itemC_def)
  have l: "(1 :: nat) < length [itemA, itemB, itemC]" by simp
  have b: "item_id ([itemA, itemB, itemC] ! 1) = ''b''" by (simp add: itemB_def)
  note t = data_effect_idempotent[of "[itemA, itemB, itemC]" listABC]
  from t d have q: "perm_table (positions (dataEffect [itemA, itemB, itemC] listABC))" by blast
  from t d l have "obj_get (positions (dataEffect [itemA, itemB, itemC] listABC))
      (item_id ([itemA, itemB, itemC] ! 1)) = Some (int 1)" by blast
  then have r: "obj_get (positions (dataEffect [itemA, itemB, itemC] listABC)) ''b'' = Some 1"
    unfolding b by simp
  from t have i: "dataEffect [itemA, itemB, itemC] (dataEffect [itemA, itemB, itemC] listABC)
     = dataEffect [itemA, itemB, itemC] listABC" by blast
  from d q l r i show ?thesis by blast
qed

section \<open>The auto-scroll coordinator\<close>

lemma maxScroll_nonneg: "0 \<le> maxScroll st"
  by (simp add: maxScroll_def)

lemma newScroll_bounds:
  "0 \<le> speed i \<Longrightarrow> inBounds st \<Longrightarrow> 0 \<le> newScroll i st \<and> newScroll i st \<le> maxScroll st"
  using maxScroll_nonneg[of st] by (auto simp: newScroll_def inBounds_def)

lemma clearInterval_frame:
  "scrollY (clearInterval h st) = scrollY st \<and> contentHeight (clearInterval h st) = contentHeight st \<and>
   containerHeight (clearInterval h st) = containerHeight st \<and>
   scrollIntervalRef (clearInterval h st) = scrollIntervalRef st"
  by (simp add: clearInterval_def)

lemma clearInterval_speeds:
  "list_all (\<lambda>i. 0 \<le> speed i) (intervals st) \<Longrightarrow>
   list_all (\<lambda>i. 0 \<le> speed i) (intervals (clearInterval h st))"
  by (simp add: clearInterval_def list_all_iff)

lemma intervalCallback_steady:
  assumes "steady st" "0 \<le> speed i"
  shows "steady (intervalCallback i st) \<and> maxScroll (intervalCallback i st) = maxScroll st"
  using assms newScroll_bounds[of i st]
  by (auto simp: steady_def intervalCallback_def inBounds_def maxScroll_def scrollHandler_def
        clearInterval_def list_all_iff split: option.split)

lemma fire_steady:
  assumes "steady st"
  shows "steady (fire h st) \<and> maxScroll (fire h st) = maxScroll st"
proof (cases "find (\<lambda>i. handle i = h) (intervals st)")
  case None
  with assms show ?thesis by (simp add: fire_def)
next
  case (Some i)
  then have "i \<in> set (intervals st)" by (auto simp: find_Some_iff)
  with assms have "0 \<le> speed i" by (simp add: steady_def list_all_iff)
  with assms Some intervalCallback_steady[of st i] show ?thesis by (simp add: fire_def)
qed

lemma startAutoScroll_steady:
  assumes "steady st" "0 \<le> spd"
  shows "steady (startAutoScroll spd dir st) \<and> maxScroll (startAutoScroll spd dir st) = maxScroll st"
  using assms
  by (auto simp: steady_def startAutoScroll_def setInterval_def clearInterval_def inBounds_def
        maxScroll_def list_all_iff Let_def split: option.split)

lemma stopAutoScroll_steady:
  assumes "steady st"
  shows "steady (stopAutoScroll st) \<and> maxScroll (stopAutoScroll st) = maxScroll st"
  using assms
  by (auto simp: steady_def stopAutoScroll_def clearInterval_def inBounds_def
        maxScroll_def list_all_iff split: option.split)

lemma unmountCleanup_steady:
  assumes "steady st"
  shows "steady (unmountCleanup st) \<and> maxScroll (unmountCleanup st) = maxScroll st"
  using assms
  by (auto simp: steady_def unmountCleanup_def clearInterval_def inBounds_def
        maxScroll_def list_all_iff split: option.split)

lemma scrollStep_steady:
  assumes "steady st" "0 \<le> spd"
  shows "steady (scrollStep spd e st) \<and> maxScroll (scrollStep spd e st) = maxScroll st"
  using assms fire_steady startAutoScroll_steady stopAutoScroll_steady unmountCleanup_steady
  by (cases e) simp_all

lemma scrollRun_steady:
  assumes "steady st" "0 \<le> spd"
  shows "steady (scrollRun spd evs st) \<and> maxScroll (scrollRun spd evs st) = maxScroll st"
  using assms
proof (induction evs arbitrary: st)
  case Nil
  then show ?case by simp
next
  case (Cons e evs)
  from scrollStep_steady[OF Cons.prems, of e] Cons.IH[of "scrollStep spd e st"] Cons.prems(2)
  show ?case by simp
qed

lemma ticks_steady:
  assumes "steady st"
  shows "steady (ticks n st) \<and> maxScroll (ticks n st) = maxScroll st"
  using assms
proof (induction n arbitrary: st)
  case 0
  then show ?case by simp
next
  case (Suc n)
  let ?st' = "case scrollIntervalRef st of None \<Rightarrow> st | Some h \<Rightarrow> fire h st"
  have "steady ?st' \<and> maxScroll ?st' = maxScroll st"
    using Suc.prems fire_steady[of st] by (simp split: option.split)
  with Suc.IH[of ?st'] show ?case by simp
qed

lemma fire_self_stop:
  assumes "scrollIntervalRef st = Some h" "find (\<lambda>i. handle i = h) (intervals st) = Some i"
    "newScroll i st = scrollY st"
  shows "scrollIntervalRef (fire h st) = None \<and> autoScrollDirection (fire h st) = Stop \<and>
         list_all (\<lambda>j. handle j \<noteq> h) (intervals (fire h st)) \<and> scrollY (fire h st) = scrollY st"
  using assms by (simp add: fire_def intervalCallback_def clearInterval_def list_all_iff)

lemma ticks_Suc_end:
  "ticks (Suc n) st =
     (case scrollIntervalRef (ticks n st) of None \<Rightarrow> ticks n st | Some h \<Rightarrow> fire h (ticks n st))"
proof (induction n arbitrary: st)
  case 0
  show ?case by (simp split: option.split)
next
  case (Suc n)
  let ?st' = "case scrollIntervalRef st of None \<Rightarrow> st | Some h \<Rightarrow> fire h st"
  have "ticks (Suc (Suc n)) st = ticks (Suc n) ?st'" by simp
  also have "\<dots> = (case scrollIntervalRef (ticks n ?st') of None \<Rightarrow> ticks n ?st'
                      | Some h \<Rightarrow> fire h (ticks n ?st'))" by (rule Suc.IH)
  also have "ticks n ?st' = ticks (Suc n) st" by simp
  finally show ?case .
qed

text \<open>While the offset stays below the extent, each downward tick adds the speed.\<close>

lemma maxScroll_scrollY: "maxScroll (st\<lparr>scrollY := y\<rparr>) = maxScroll st"
  by (simp add: maxScroll_def)

lemma ticks_down:
  assumes "scrollIntervalRef st = Some h" "find (\<lambda>i. handle i = h) (intervals st) = Some i"
    "direction i \<noteq> Up" "0 < speed i" "scrollY st + real n * speed i \<le> maxScroll st"
  shows "ticks n st = st\<lparr>scrollY := scrollY st + real n * speed i\<rparr>"
  using assms
proof (induction n arbitrary: st)
  case 0
  show ?case by simp
next
  case (Suc n)
  let ?st' = "st\<lparr>scrollY := scrollY st + speed i\<rparr>"
  have "0 \<le> real n * speed i" using Suc.prems(4) by simp
  with Suc.prems(5) have le: "scrollY st + speed i \<le> maxScroll st"
    by (simp add: algebra_simps)
  with Suc.prems(3,4) have ns: "newScroll i st = scrollY st + speed i"
    by (simp add: newScroll_def)
  with Suc.prems(1,2,4) have f: "fire h st = ?st'"
    by (simp add: fire_def intervalCallback_def scrollHandler_def)
  from Suc.prems(5) have room: "scrollY ?st' + real n * speed i \<le> maxScroll ?st'"
    by (simp add: maxScroll_scrollY algebra_simps)
  have "ticks n ?st' = ?st'\<lparr>scrollY := scrollY ?st' + real n * speed i\<rparr>"
    using _ _ Suc.prems(3,4) room
  proof (rule Suc.IH)
    show "scrollIntervalRef ?st' = Some h" using Suc.prems(1) by simp
    show "find (\<lambda>i. handle i = h) (intervals ?st') = Some i" using Suc.prems(2) by simp
  qed
  with Suc.prems(1) f show ?case by (simp add: algebra_simps)
qed

lemma scrollingDown_eq:
  "scrollingDown =
     \<lparr>currentOrderRef = [], draggableItemKey = None, draggedItemPosition = -1,
      positions = [], itemHeights = Map.empty, containerHeight = 400,
      autoScrollDirection = Down, scrollY = 0, contentHeight = 1000,
      scrollIntervalRef = Some (Timeout 1),
      intervals = [\<lparr>handle = Timeout 1, direction = Down, speed = 8\<rparr>], nextTimeout = 2\<rparr>"
  by (simp add: scrollingDown_def startAutoScroll_def setInterval_def mount_def
        onContentSizeChange_def onContainerLayout_def)

lemma scrollingDown_75:
  "ticks 75 scrollingDown = scrollingDown\<lparr>scrollY := 600\<rparr>"
proof -
  have "ticks 75 scrollingDown =
        scrollingDown\<lparr>scrollY := scrollY scrollingDown
           + real 75 * speed \<lparr>handle = Timeout 1, direction = Down, speed = 8\<rparr>\<rparr>"
    by (rule ticks_down[where h = "Timeout 1"]) (simp_all add: scrollingDown_eq maxScroll_def)
  then show ?thesis by (simp add: scrollingDown_eq)
qed

lemma scrollingDown_76:
  "ticks 76 scrollingDown =
     scrollingDown\<lparr>scrollY := 600, scrollIntervalRef := None, intervals := [],
                   autoScrollDirection := Stop\<rparr>"
proof -
  have "ticks 76 scrollingDown = ticks (Suc 75) scrollingDown" by simp
  also have "\<dots> = fire (Timeout 1) (scrollingDown\<lparr>scrollY := 600\<rparr>)"
    unfolding ticks_Suc_end scrollingDown_75 by (simp add: scrollingDown_eq)
  also have "\<dots> = scrollingDown\<lparr>scrollY := 600, scrollIntervalRef := None, intervals := [],
                   autoScrollDirection := Stop\<rparr>"
    by (simp add: scrollingDown_eq fire_def intervalCallback_def newScroll_def maxScroll_def
          clearInterval_def)
  finally show ?thesis .
qed

lemma ticks_add: "ticks (m + n) st = ticks n (ticks m st)"
  by (induction m arbitrary: st) simp_all

lemma ticks_up:
  assumes "scrollIntervalRef st = Some h" "find (\<lambda>i. handle i = h) (intervals st) = Some i"
    "direction i = Up" "0 < speed i" "0 \<le> scrollY st - real n * speed i"
  shows "ticks n st = st\<lparr>scrollY := scrollY st - real n * speed i\<rparr>"
  using assms
proof (induction n arbitrary: st)
  case 0
  show ?case by simp
next
  case (Suc n)
  let ?st' = "st\<lparr>scrollY := scrollY st - speed i\<rparr>"
  have "0 \<le> real n * speed i" using Suc.prems(4) by simp
  with Suc.prems(5) have le: "0 \<le> scrollY st - speed i"
    by (simp add: algebra_simps)
  with Suc.prems(3,4) have ns: "newScroll i st = scrollY st - speed i"
    by (simp add: newScroll_def)
  with Suc.prems(1,2,4) have f: "fire h st = ?st'"
    by (simp add: fire_def intervalCallback_def scrollHandler_def)
  from Suc.prems(5) have room: "0 \<le> scrollY ?st' - real n * speed i"
    by (simp add: algebra_simps)
  have "ticks n ?st' = ?st'\<lparr>scrollY := scrollY ?st' - real n * speed i\<rparr>"
    using _ _ Suc.prems(3,4) room
  proof (rule Suc.IH)
    show "scrollIntervalRef ?st' = Some h" using Suc.prems(1) by simp
    show "find (\<lambda>i. handle i = h) (intervals ?st') = Some i" using Suc.prems(2) by simp
  qed
  with Suc.prems(1) f show ?case by (simp add: algebra_simps)
qed

text \<open>A tick at the boundary stops the timer; a tick less than one step away reaches it.\<close>

lemma tick_at_end:
  assumes "scrollIntervalRef st = Some h" "find (\<lambda>i. handle i = h) (intervals st) = Some i"
    "0 < speed i" "inBounds st"
    "if direction i = Up then scrollY st = 0 else scrollY st = maxScroll st"
  shows "scrollIntervalRef (ticks 1 st) = None \<and> autoScrollDirection (ticks 1 st) = Stop \<and>
         inBounds (ticks 1 st)"
proof -
  from assms(3,4,5) have "newScroll i st = scrollY st"
    by (auto simp: newScroll_def inBounds_def split: if_splits)
  with assms(1,2,4) show ?thesis
    by (simp add: fire_def intervalCallback_def inBounds_def maxScroll_def clearInterval_def)
qed

lemma tick_near_end:
  assumes "scrollIntervalRef st = Some h" "find (\<lambda>i. handle i = h) (intervals st) = Some i"
    "0 < speed i" "inBounds st"
    "if direction i = Up then 0 < scrollY st \<and> scrollY st < speed i
     else scrollY st < maxScroll st \<and> maxScroll st < scrollY st + speed i"
  shows "ticks 1 st = st\<lparr>scrollY := (if direction i = Up then 0 else maxScroll st)\<rparr>"
proof -
  from assms(3,4,5) have "newScroll i st = (if direction i = Up then 0 else maxScroll st)"
    "newScroll i st \<noteq> scrollY st"
    by (auto simp: newScroll_def inBounds_def split: if_splits)
  with assms(1,2) show ?thesis
    by (simp add: fire_def intervalCallback_def scrollHandler_def)
qed

text \<open>
  With a positive speed and the scroll offset within the extent, the timer the ref holds
  stops itself after finitely many ticks, in either direction.
\<close>

lemma auto_scroll_self_stops:
  assumes "scrollIntervalRef st = Some h" and "find (\<lambda>i. handle i = h) (intervals st) = Some i"
    and "0 < speed i" and "inBounds st"
  shows "\<exists>n. scrollIntervalRef (ticks n st) = None \<and> autoScrollDirection (ticks n st) = Stop \<and>
             inBounds (ticks n st)"
proof -
  let ?sp = "speed i"
  define room where "room = (if direction i = Up then scrollY st else maxScroll st - scrollY st)"
  define N where "N = nat \<lfloor>room / ?sp\<rfloor>"
  define y1 where "y1 = (if direction i = Up then scrollY st - real N * ?sp
                         else scrollY st + real N * ?sp)"
  let ?st1 = "st\<lparr>scrollY := y1\<rparr>"
  from assms(4) have room0: "0 \<le> room" by (simp add: room_def inBounds_def)
  with assms(3) have "0 \<le> room / ?sp" by simp
  then have N1: "real N \<le> room / ?sp" and N2: "room / ?sp < real N + 1"
    unfolding N_def by linarith+
  from N1 assms(3) have le: "real N * ?sp \<le> room" by (simp add: pos_le_divide_eq)
  from N2 assms(3) have lt: "room < (real N + 1) * ?sp" by (simp add: pos_divide_less_eq)
  have t1: "ticks N st = ?st1"
  proof (cases "direction i = Up")
    case True
    with le have "0 \<le> scrollY st - real N * ?sp" by (simp add: room_def)
    from ticks_up[OF assms(1,2) True assms(3) this] True show ?thesis by (simp add: y1_def)
  next
    case False
    with le have "scrollY st + real N * ?sp \<le> maxScroll st" by (simp add: room_def)
    from ticks_down[OF assms(1,2) False assms(3) this] False show ?thesis by (simp add: y1_def)
  qed
  have r1: "scrollIntervalRef ?st1 = Some h" "find (\<lambda>i. handle i = h) (intervals ?st1) = Some i"
    using assms(1,2) by simp_all
  have m1: "maxScroll ?st1 = maxScroll st" by (rule maxScroll_scrollY)
  from assms(3) have nn: "0 \<le> real N * ?sp" by simp
  have b1: "inBounds ?st1"
    using le nn assms(4) by (auto simp: inBounds_def maxScroll_scrollY y1_def room_def)
  show ?thesis
  proof (cases "if direction i = Up then y1 = 0 else y1 = maxScroll st")
    case True
    then have "if direction i = Up then scrollY ?st1 = 0 else scrollY ?st1 = maxScroll ?st1"
      by (simp add: maxScroll_scrollY)
    from tick_at_end[OF r1 assms(3) b1 this]
    have "scrollIntervalRef (ticks (N + 1) st) = None \<and>
          autoScrollDirection (ticks (N + 1) st) = Stop \<and> inBounds (ticks (N + 1) st)"
      unfolding ticks_add t1 .
    then show ?thesis by blast
  next
    case False
    with b1 lt have near: "if direction i = Up then 0 < scrollY ?st1 \<and> scrollY ?st1 < ?sp
        else scrollY ?st1 < maxScroll ?st1 \<and> maxScroll ?st1 < scrollY ?st1 + ?sp"
      by (auto simp: inBounds_def maxScroll_scrollY y1_def room_def algebra_simps split: if_splits)
    let ?st2 = "?st1\<lparr>scrollY := (if direction i = Up then 0 else maxScroll ?st1)\<rparr>"
    have t2: "ticks 1 ?st1 = ?st2" using r1 assms(3) b1 near by (rule tick_near_end)
    have r2: "scrollIntervalRef ?st2 = Some h" "find (\<lambda>i. handle i = h) (intervals ?st2) = Some i"
      using assms(1,2) by simp_all
    have b2: "inBounds ?st2" by (simp add: inBounds_def maxScroll_def)
    have e2: "if direction i = Up then scrollY ?st2 = 0 else scrollY ?st2 = maxScroll ?st2"
      by (simp add: maxScroll_def)
    from tick_at_end[OF r2 assms(3) b2 e2]
    have "scrollIntervalRef (ticks (N + 1 + 1) st) = None \<and>
          autoScrollDirection (ticks (N + 1 + 1) st) = Stop \<and> inBounds (ticks (N + 1 + 1) st)"
      unfolding ticks_add t1 t2 .
    then show ?thesis by blast
  qed
qed

text \<open>
  C5. With a non-negative auto-scroll speed and a scroll offset that starts within
  \<open>0 .. max(0, contentHeight - containerHeight)\<close>, the offset stays within that range
  after any number of ticks, and after any run of starts, stops, ticks and the unmount.
  A tick of the timer the ref holds that cannot move the offset clears that timer, nulls
  the ref and sets the direction to \<open>stop\<close>; with a positive speed such a tick comes
  after finitely many. With content of 1000 pixels in a container of
  400 the extent is 600: scrolling down from the top at 8 pixels a tick never exceeds 600,
  reaches it with the 75th tick, and the 76th tick stops the timer.
\<close>

theorem auto_scroll_stays_in_bounds:
  assumes "0 \<le> autoScrollSpeed" and "list_all (\<lambda>i. 0 \<le> speed i) (intervals st)"
    and "inBounds st"
  shows "inBounds (ticks n st) \<and> maxScroll (ticks n st) = maxScroll st \<and>
         inBounds (scrollRun autoScrollSpeed evs st) \<and>
         maxScroll (scrollRun autoScrollSpeed evs st) = maxScroll st \<and>
         (scrollIntervalRef st = Some h \<and> find (\<lambda>i. handle i = h) (intervals st) = Some i \<and>
          newScroll i st = scrollY st \<longrightarrow>
            scrollIntervalRef (fire h st) = None \<and> autoScrollDirection (fire h st) = Stop \<and>
            list_all (\<lambda>j. handle j \<noteq> h) (intervals (fire h st)) \<and>
            scrollY (fire h st) = scrollY st) \<and>
         (scrollIntervalRef st = Some h \<and> find (\<lambda>i. handle i = h) (intervals st) = Some i \<and>
          0 < speed i \<longrightarrow>
            (\<exists>k. scrollIntervalRef (ticks k st) = None \<and>
                 autoScrollDirection (ticks k st) = Stop)) \<and>
         maxScroll scrollingDown = 600 \<and>
         (\<forall>m. 0 \<le> scrollY (ticks m scrollingDown) \<and> scrollY (ticks m scrollingDown) \<le> 600) \<and>
         scrollY (ticks 75 scrollingDown) = 600 \<and>
         scrollIntervalRef (ticks 76 scrollingDown) = None \<and>
         intervals (ticks 76 scrollingDown) = [] \<and>
         autoScrollDirection (ticks 76 scrollingDown) = Stop \<and>
         scrollY (ticks 76 scrollingDown) = 600"
proof -
  from assms(2,3) have s: "steady st" by (simp add: steady_def)
  have a: "inBounds (ticks n st) \<and> maxScroll (ticks n st) = maxScroll st"
    using ticks_steady[OF s, of n] by (simp add: steady_def)
  have b: "inBounds (scrollRun autoScrollSpeed evs st) \<and>
         maxScroll (scrollRun autoScrollSpeed evs st) = maxScroll st"
    using scrollRun_steady[OF s assms(1), of evs] by (simp add: steady_def)
  have c: "scrollIntervalRef (fire h st) = None \<and> autoScrollDirection (fire h st) = Stop \<and>
            list_all (\<lambda>j. handle j \<noteq> h) (intervals (fire h st)) \<and>
            scrollY (fire h st) = scrollY st"
    if "scrollIntervalRef st = Some h \<and> find (\<lambda>i. handle i = h) (intervals st) = Some i \<and>
          newScroll i st = scrollY st"
    using that fire_self_stop[of st h i] by blast
  have c': "\<exists>k. scrollIntervalRef (ticks k st) = None \<and> autoScrollDirection (ticks k st) = Stop"
    if "scrollIntervalRef st = Some h \<and> find (\<lambda>i. handle i = h) (intervals st) = Some i \<and>
          0 < speed i"
    using that assms(3) auto_scroll_self_stops[of st h i] by blast
  have m: "maxScroll scrollingDown = 600" by (simp add: scrollingDown_eq maxScroll_def)
  have "steady scrollingDown"
    by (simp add: steady_def inBounds_def scrollingDown_eq maxScroll_def)
  then have d: "0 \<le> scrollY (ticks m scrollingDown) \<and> scrollY (ticks m scrollingDown) \<le> 600" for m
    using ticks_steady[of scrollingDown m] m by (simp add: steady_def inBounds_def)
  have e: "scrollY (ticks 75 scrollingDown) = 600" unfolding scrollingDown_75 by simp
  have f: "scrollIntervalRef (ticks 76 scrollingDown) = None \<and>
         intervals (ticks 76 scrollingDown) = [] \<and>
         autoScrollDirection (ticks 76 scrollingDown) = Stop \<and>
         scrollY (ticks 76 scrollingDown) = 600" unfolding scrollingDown_76 by simp
  from a b c c' m d e f show ?thesis by blast
qed

theorem auto_scroll_stays_in_bounds_witness:
  "(0 :: real) \<le> 8 \<and> list_all (\<lambda>i. 0 \<le> speed i) (intervals (ticks 75 scrollingDown)) \<and>
   inBounds (ticks 75 scrollingDown) \<and>
   scrollIntervalRef (ticks 75 scrollingDown) = Some (Timeout 1) \<and>
   find (\<lambda>i. handle i = Timeout 1) (intervals (ticks 75 scrollingDown))
     = Some \<lparr>handle = Timeout 1, direction = Down, speed = 8\<rparr> \<and>
   newScroll \<lparr>handle = Timeout 1, direction = Down, speed = 8\<rparr> (ticks 75 scrollingDown)
     = scrollY (ticks 75 scrollingDown) \<and>
   scrollIntervalRef (fire (Timeout 1) (ticks 75 scrollingDown)) = None \<and>
   autoScrollDirection (fire (Timeout 1) (ticks 75 scrollingDown)) = Stop \<and>
   0 < speed \<lparr>handle = Timeout 1, direction = Down, speed = 8\<rparr> \<and>
   (\<exists>k. scrollIntervalRef (ticks k (ticks 75 scrollingDown)) = None \<and>
        autoScrollDirection (ticks k (ticks 75 scrollingDown)) = Stop) \<and>
   inBounds (scrollRun 8 [FireEv (Timeout 1), StartEv Up, FireEv (Timeout 2)] (ticks 75 scrollingDown)) \<and>
   scrollY (scrollRun 8 [FireEv (Timeout 1), StartEv Up, FireEv (Timeout 2)] (ticks 75 scrollingDown)) = 592"
proof -
  let ?st = "ticks 75 scrollingDown"
  let ?i = "\<lparr>handle = Timeout 1, direction = Down, speed = 8\<rparr>"
  have h1: "(0 :: real) \<le> 8" by simp
  have h2: "list_all (\<lambda>i. 0 \<le> speed i) (intervals ?st)"
    unfolding scrollingDown_75 by (simp add: scrollingDown_eq)
  have h3: "inBounds ?st"
    unfolding scrollingDown_75 by (simp add: scrollingDown_eq inBounds_def maxScroll_def)
  have g: "scrollIntervalRef ?st = Some (Timeout 1) \<and>
           find (\<lambda>i. handle i = Timeout 1) (intervals ?st) = Some ?i \<and>
           newScroll ?i ?st = scrollY ?st"
    unfolding scrollingDown_75 by (simp add: scrollingDown_eq newScroll_def maxScroll_def)
  have r: "scrollY (scrollRun 8 [FireEv (Timeout 1), StartEv Up, FireEv (Timeout 2)] ?st) = 592"
    unfolding scrollingDown_75
    by (simp add: scrollingDown_eq fire_def intervalCallback_def newScroll_def
          maxScroll_def clearInterval_def startAutoScroll_def setInterval_def scrollHandler_def)
  note t = auto_scroll_stays_in_bounds[OF h1 h2 h3,
      of 0 "[FireEv (Timeout 1), StartEv Up, FireEv (Timeout 2)]" "Timeout 1" ?i]
  from t g have s: "scrollIntervalRef (fire (Timeout 1) ?st) = None \<and>
      autoScrollDirection (fire (Timeout 1) ?st) = Stop" by blast
  from t have b: "inBounds (scrollRun 8 [FireEv (Timeout 1), StartEv Up, FireEv (Timeout 2)] ?st)"
    by blast
  have p: "0 < speed ?i" by simp
  from t g p have e: "\<exists>k. scrollIntervalRef (ticks k ?st) = None \<and>
        autoScrollDirection (ticks k ?st) = Stop" by blast
  from h1 h2 h3 g s p e b r show ?thesis by blast
qed

section \<open>The timer of the coordinator\<close>

lemma singleTimer_clear:
  assumes "singleTimer st" "scrollIntervalRef st = Some h"
  shows "intervals (clearInterval h st) = []"
proof -
  from assms have "intervals st = [] \<or> map handle (intervals st) = [h]"
    by (simp add: singleTimer_def)
  then show ?thesis
  proof
    assume "intervals st = []"
    then show ?thesis by (simp add: clearInterval_def)
  next
    assume "map handle (intervals st) = [h]"
    then obtain i where "intervals st = [i]" "handle i = h" by auto
    then show ?thesis by (simp add: clearInterval_def)
  qed
qed

lemma singleTimer_None:
  "singleTimer st \<Longrightarrow> scrollIntervalRef st = None \<Longrightarrow> intervals st = []"
  by (simp add: singleTimer_def)

lemma startAutoScroll_single:
  assumes "singleTimer st"
  shows "intervals (startAutoScroll spd dir st)
           = [\<lparr>handle = Timeout (nextTimeout st), direction = dir, speed = spd\<rparr>] \<and>
         scrollIntervalRef (startAutoScroll spd dir st) = Some (Timeout (nextTimeout st))"
proof (cases "scrollIntervalRef st")
  case None
  with singleTimer_None[OF assms None] show ?thesis
    by (simp add: startAutoScroll_def setInterval_def)
next
  case (Some h)
  with singleTimer_clear[OF assms Some] show ?thesis
    by (simp add: startAutoScroll_def setInterval_def clearInterval_def)
qed

lemma stopAutoScroll_single:
  assumes "singleTimer st"
  shows "intervals (stopAutoScroll st) = [] \<and> scrollIntervalRef (stopAutoScroll st) = None"
proof (cases "scrollIntervalRef st")
  case None
  with singleTimer_None[OF assms None] show ?thesis by (simp add: stopAutoScroll_def)
next
  case (Some h)
  with singleTimer_clear[OF assms Some] show ?thesis by (simp add: stopAutoScroll_def clearInterval_def)
qed

lemma unmountCleanup_single:
  assumes "singleTimer st"
  shows "intervals (unmountCleanup st) = []"
proof (cases "scrollIntervalRef st")
  case None
  with singleTimer_None[OF assms None] show ?thesis by (simp add: unmountCleanup_def)
next
  case (Some h)
  with singleTimer_clear[OF assms Some] show ?thesis by (simp add: unmountCleanup_def)
qed

lemma intervalCallback_single:
  assumes "singleTimer st"
  shows "singleTimer (intervalCallback i st)"
proof (cases "newScroll i st = scrollY st")
  case False
  with assms show ?thesis
    by (simp add: intervalCallback_def scrollHandler_def singleTimer_def split: option.splits)
next
  case True
  show ?thesis
  proof (cases "scrollIntervalRef st")
    case None
    with True singleTimer_None[OF assms None] show ?thesis
      by (simp add: intervalCallback_def singleTimer_def)
  next
    case (Some h)
    with True singleTimer_clear[OF assms Some] show ?thesis
      by (simp add: intervalCallback_def singleTimer_def clearInterval_def)
  qed
qed

lemma scrollStep_single:
  assumes "singleTimer st"
  shows "singleTimer (scrollStep spd e st)"
proof (cases e)
  case (StartEv dir)
  with startAutoScroll_single[OF assms, of spd dir] show ?thesis by (simp add: singleTimer_def)
next
  case StopEv
  with stopAutoScroll_single[OF assms] show ?thesis by (simp add: singleTimer_def)
next
  case (FireEv h)
  with intervalCallback_single[OF assms] assms show ?thesis
    by (simp add: fire_def split: option.split)
next
  case UnmountEv
  with unmountCleanup_single[OF assms] show ?thesis
    by (simp add: singleTimer_def unmountCleanup_def clearInterval_def split: option.split)
qed

lemma scrollRun_single:
  "singleTimer st \<Longrightarrow> singleTimer (scrollRun spd evs st)"
  by (induction evs arbitrary: st) (simp_all add: scrollStep_single)

lemma scrollRun_append:
  "scrollRun spd (evs @ evs') st = scrollRun spd evs' (scrollRun spd evs st)"
  by (induction evs arbitrary: st) simp_all

lemma singleTimer_length: "singleTimer st \<Longrightarrow> length (intervals st) \<le> 1"
  by (auto simp: singleTimer_def split: option.splits dest: arg_cong[where f = length])

text \<open>
  C10. From a state in which every live interval timer is the one the ref holds, any run
  of \<open>startAutoScroll\<close>, \<open>stopAutoScroll\<close>, timer ticks and the unmount cleanup leaves at
  most one live timer, and none once the run ends with the unmount cleanup.
  \<open>startAutoScroll\<close> leaves exactly the timer it created, held by the ref;
  \<open>stopAutoScroll\<close> leaves no timer and a null ref; the unmount cleanup leaves no timer.
\<close>

theorem at_most_one_timer:
  assumes "singleTimer st"
  shows "singleTimer (scrollRun spd evs st) \<and>
         length (intervals (scrollRun spd evs st)) \<le> 1 \<and>
         intervals (scrollRun spd (evs @ [UnmountEv]) st) = [] \<and>
         intervals (startAutoScroll spd dir st)
           = [\<lparr>handle = Timeout (nextTimeout st), direction = dir, speed = spd\<rparr>] \<and>
         scrollIntervalRef (startAutoScroll spd dir st) = Some (Timeout (nextTimeout st)) \<and>
         intervals (stopAutoScroll st) = [] \<and> scrollIntervalRef (stopAutoScroll st) = None \<and>
         intervals (unmountCleanup st) = []"
proof -
  have r: "singleTimer (scrollRun spd evs st)" using assms by (rule scrollRun_single)
  then have l: "length (intervals (scrollRun spd evs st)) \<le> 1" by (rule singleTimer_length)
  have u: "intervals (scrollRun spd (evs @ [UnmountEv]) st) = []"
    using unmountCleanup_single[OF r] by (simp add: scrollRun_append)
  from r l u startAutoScroll_single[OF assms, of spd dir] stopAutoScroll_single[OF assms]
    unmountCleanup_single[OF assms]
  show ?thesis by blast
qed

theorem at_most_one_timer_witness:
  "singleTimer (mount [itemA, itemB, itemC]) \<and>
   length (intervals (scrollRun 8 [StartEv Down, StartEv Up, FireEv (Timeout 2), StartEv Down]
      (mount [itemA, itemB, itemC]))) \<le> 1 \<and>
   map handle (intervals (scrollRun 8 [StartEv Down, StartEv Up, FireEv (Timeout 2), StartEv Down]
      (mount [itemA, itemB, itemC]))) = [Timeout 3] \<and>
   intervals (scrollRun 8 ([StartEv Down, StartEv Up, FireEv (Timeout 2), StartEv Down] @ [UnmountEv])
      (mount [itemA, itemB, itemC])) = []"
proof -
  have h: "singleTimer (mount [itemA, itemB, itemC])" by (simp add: singleTimer_def mount_def)
  have m: "map handle (intervals (scrollRun 8 [StartEv Down, StartEv Up, FireEv (Timeout 2), StartEv Down]
      (mount [itemA, itemB, itemC]))) = [Timeout 3]"
    by (simp add: mount_def startAutoScroll_def setInterval_def clearInterval_def fire_def
          intervalCallback_def newScroll_def maxScroll_def scrollHandler_def)
  from at_most_one_timer[OF h, of 8 "[StartEv Down, StartEv Up, FireEv (Timeout 2), StartEv Down]"] h m
  show ?thesis by blast
qed

section \<open>The edge check\<close>

text \<open>
  The edge check of \<open>onUpdate\<close>: the direction is \<open>up\<close> within 100 pixels of the top of
  the viewport, \<open>down\<close> beyond the container height less 200 pixels, and \<open>stop\<close>
  otherwise; a call is scheduled only when the direction changes.
\<close>

lemma edge_check_on_transitions:
  "snd (edgeCheck st y) =
     (if fst (edgeCheck st y) = autoScrollDirection st then []
      else if fst (edgeCheck st y) = Stop then [StopAutoScroll]
      else [StartAutoScroll (fst (edgeCheck st y))]) \<and>
   fst (edgeCheck st y) =
     (if y - scrollY st < 100 then Up
      else if containerHeight st - 200 < y - scrollY st then Down else Stop)"
  by (simp add: edgeCheck_def Let_def)

end
